theory Spec2Isabelle
  imports Main "HOL-Library.Word"
begin

unbundle bit_operations_syntax

section \<open>Basic types\<close>

text \<open>
  Go's \<open>[]byte\<close> is a list of 8-bit words, Go's \<open>string\<close> a list of 8-bit characters,
  \<open>int64\<close> a 64-bit word compared as a signed number, \<open>uint32\<close> a 32-bit word.
\<close>

type_synonym byte = "8 word"
type_synonym int64 = "64 word"
type_synonym uint32 = "32 word"

text \<open>
  A \<open>time.Time\<close> is represented by the number of seconds its \<open>Unix()\<close> method returns;
  every \<open>int64\<close> is such a value (\<open>time.Unix(s, 0).Unix() = s\<close>).
\<close>

datatype Time = UnixTime (Unix: int64)

text \<open>
  The result of \<open>t.Sub(u)\<close> is kept symbolic: the \<open>time\<close> package computes and prints it,
  and nothing below depends on its value.
\<close>

datatype Duration = Time_Sub Time Time

section \<open>errors (src/unnamed/part_000)\<close>

text \<open>
  The error values the package can return. \<open>CorruptInputError\<close> is the error of
  \<open>encoding/base64\<close>, with the offset it reports. \<open>Errorf\<close> stands for
  \<open>fmt.Errorf(format, args...)\<close>, \<open>MarshalError\<close> for whatever \<open>json.Marshal\<close> fails with.
\<close>

datatype error =
    ErrInvalidKey
  | ErrInvalidKeyType
  | ErrHashUnavailable
  | ErrSignatureInvalid
  | CorruptInputError int
  | Errorf string "Duration list"
  | MarshalError string

definition ValidationErrorMalformed :: uint32 where
  "ValidationErrorMalformed = push_bit 0 1"

definition ValidationErrorUnverifiable :: uint32 where
  "ValidationErrorUnverifiable = push_bit 1 1"

definition ValidationErrorSignatureInvalid :: uint32 where
  "ValidationErrorSignatureInvalid = push_bit 2 1"

definition ValidationErrorAudience :: uint32 where
  "ValidationErrorAudience = push_bit 3 1"

definition ValidationErrorExpired :: uint32 where
  "ValidationErrorExpired = push_bit 4 1"

definition ValidationErrorIssuedAt :: uint32 where
  "ValidationErrorIssuedAt = push_bit 5 1"

definition ValidationErrorIssuer :: uint32 where
  "ValidationErrorIssuer = push_bit 6 1"

definition ValidationErrorNotValidYet :: uint32 where
  "ValidationErrorNotValidYet = push_bit 7 1"

definition ValidationErrorId :: uint32 where
  "ValidationErrorId = push_bit 8 1"

definition ValidationErrorClaimsInvalid :: uint32 where
  "ValidationErrorClaimsInvalid = push_bit 9 1"

text \<open>The struct \<open>ValidationError\<close>; its unexported field \<open>text\<close> is called \<open>text'\<close> here.\<close>

record ValidationError =
  Inner :: "error option"
  Errors :: uint32
  text' :: string

definition NewValidationError :: "string \<Rightarrow> uint32 \<Rightarrow> ValidationError" where
  "NewValidationError errorText errorFlags =
     \<lparr>Inner = None, Errors = errorFlags, text' = errorText\<rparr>"

text \<open>\<open>func (e *ValidationError) valid() bool\<close>\<close>

definition valid :: "ValidationError \<Rightarrow> bool" where
  "valid e = (Errors e = 0)"

section \<open>claims (src/claims.go)\<close>

text \<open>The struct \<open>StandardClaims\<close>; the field \<open>Id\<close> is called \<open>Id'\<close> here.\<close>

record StandardClaims =
  Audience :: string
  ExpiresAt :: int64
  Id' :: string
  IssuedAt :: int64
  Issuer :: string
  NotBefore :: int64
  Subject :: string

text \<open>\<open>subtle.ConstantTimeCompare\<close>: 1 when the slices are equal, 0 otherwise.\<close>

definition ConstantTimeByteEq :: "byte \<Rightarrow> byte \<Rightarrow> int" where
  "ConstantTimeByteEq x y = (if x = y then 1 else 0)"

definition ConstantTimeCompare :: "byte list \<Rightarrow> byte list \<Rightarrow> int" where
  "ConstantTimeCompare x y =
     (if length x \<noteq> length y then 0
      else ConstantTimeByteEq (fold (\<lambda>(a, b) v. v OR (a XOR b)) (zip x y) 0) 0)"

text \<open>\<open>[]byte(s)\<close> and \<open>string(b)\<close>\<close>

definition bytes_of :: "string \<Rightarrow> byte list" where
  "bytes_of s = map (\<lambda>c. of_char c) s"

definition verifyAud :: "string \<Rightarrow> string \<Rightarrow> bool \<Rightarrow> bool" where
  "verifyAud aud cmp required =
     (if aud = [] then \<not> required
      else if ConstantTimeCompare (bytes_of aud) (bytes_of cmp) \<noteq> 0 then True
      else False)"

definition verifyExp :: "int64 \<Rightarrow> int64 \<Rightarrow> bool \<Rightarrow> bool" where
  "verifyExp exp now required =
     (if exp = 0 then \<not> required else now \<le>s exp)"

definition verifyIat :: "int64 \<Rightarrow> int64 \<Rightarrow> bool \<Rightarrow> bool" where
  "verifyIat iat now required =
     (if iat = 0 then \<not> required else iat \<le>s now)"

definition verifyIss :: "string \<Rightarrow> string \<Rightarrow> bool \<Rightarrow> bool" where
  "verifyIss iss cmp required =
     (if iss = [] then \<not> required
      else if ConstantTimeCompare (bytes_of iss) (bytes_of cmp) \<noteq> 0 then True
      else False)"

definition verifyNbf :: "int64 \<Rightarrow> int64 \<Rightarrow> bool \<Rightarrow> bool" where
  "verifyNbf nbf now required =
     (if nbf = 0 then \<not> required else nbf \<le>s now)"

definition VerifyAudience :: "StandardClaims \<Rightarrow> string \<Rightarrow> bool \<Rightarrow> bool" where
  "VerifyAudience c cmp req = verifyAud (Audience c) cmp req"

definition VerifyExpiresAt :: "StandardClaims \<Rightarrow> int64 \<Rightarrow> bool \<Rightarrow> bool" where
  "VerifyExpiresAt c cmp req = verifyExp (ExpiresAt c) cmp req"

definition VerifyIssuedAt :: "StandardClaims \<Rightarrow> int64 \<Rightarrow> bool \<Rightarrow> bool" where
  "VerifyIssuedAt c cmp req = verifyIat (IssuedAt c) cmp req"

definition VerifyIssuer :: "StandardClaims \<Rightarrow> string \<Rightarrow> bool \<Rightarrow> bool" where
  "VerifyIssuer c cmp req = verifyIss (Issuer c) cmp req"

definition VerifyNotBefore :: "StandardClaims \<Rightarrow> int64 \<Rightarrow> bool \<Rightarrow> bool" where
  "VerifyNotBefore c cmp req = verifyNbf (NotBefore c) cmp req"

text \<open>
  \<open>func (c StandardClaims) Valid() error\<close>. The package variable \<open>TimeFunc\<close> is a
  parameter; the result is \<open>None\<close> for Go's \<open>nil\<close> and the \<open>ValidationError\<close> otherwise.
\<close>

definition StandardClaims_Valid :: "(unit \<Rightarrow> Time) \<Rightarrow> StandardClaims \<Rightarrow> ValidationError option" where
  "StandardClaims_Valid TimeFunc c =
     (let vErr = \<lparr>Inner = None, Errors = 0, text' = []\<rparr>;
          now = Unix (TimeFunc ());
          vErr = (if VerifyExpiresAt c now False = False
                  then vErr\<lparr>Inner := Some (Errorf ''token is expired by %v''
                                       [Time_Sub (UnixTime now) (UnixTime (ExpiresAt c))]),
                            Errors := Errors vErr OR ValidationErrorExpired\<rparr>
                  else vErr);
          vErr = (if VerifyIssuedAt c now False = False
                  then vErr\<lparr>Inner := Some (Errorf ''Token used before issued'' []),
                            Errors := Errors vErr OR ValidationErrorIssuedAt\<rparr>
                  else vErr);
          vErr = (if VerifyNotBefore c now False = False
                  then vErr\<lparr>Inner := Some (Errorf ''token is not valid yet'' []),
                            Errors := Errors vErr OR ValidationErrorNotValidYet\<rparr>
                  else vErr)
      in if valid vErr then None else Some vErr)"

text \<open>A clock that always shows the same instant: \<open>func() time.Time { return t }\<close>.\<close>

definition fixedClock :: "Time \<Rightarrow> unit \<Rightarrow> Time" where
  "fixedClock t u = t"

section \<open>The Go library functions the package calls\<close>

subsection \<open>strings\<close>

text \<open>\<open>strings.TrimRight(s, cutset)\<close>, \<open>strings.Repeat(s, count)\<close> and \<open>strings.Join(elems, sep)\<close>\<close>

definition TrimRight :: "string \<Rightarrow> string \<Rightarrow> string" where
  "TrimRight s cutset = rev (dropWhile (\<lambda>c. c \<in> set cutset) (rev s))"

definition Repeat :: "string \<Rightarrow> nat \<Rightarrow> string" where
  "Repeat s count = concat (replicate count s)"

fun Join :: "string list \<Rightarrow> string \<Rightarrow> string" where
  "Join [] sep = []"
| "Join [x] sep = x"
| "Join (x # y # ys) sep = x @ sep @ Join (y # ys) sep"

subsection \<open>encoding/base64: \<open>base64.URLEncoding\<close>\<close>

text \<open>
  \<open>URLEncoding\<close> is the padded, non-strict encoding over the URL-safe alphabet.
  \<open>decodeMap\<close> is filled as \<open>NewEncoding\<close> fills it: \<open>0xFF\<close> everywhere, then
  \<open>decodeMap[encoder[i]] = i\<close>.
\<close>

definition encodeURL :: string where
  "encodeURL = ''ABCDEFGHIJKLMNOPQRSTUVWXYZabcdefghijklmnopqrstuvwxyz0123456789-_''"

definition padChar :: char where
  "padChar = CHR ''=''"

definition decodeMap :: "char \<Rightarrow> byte" where
  "decodeMap = fold (\<lambda>i m. m(encodeURL ! i := of_nat i)) [0..<length encodeURL] (\<lambda>c. 0xFF)"

text \<open>
  \<open>Encoding.Encode\<close>: three source bytes give four characters; a rest of one or two bytes
  gives two or three characters and is filled up with the padding character.
\<close>

fun Encode :: "byte list \<Rightarrow> string" where
  "Encode (s0 # s1 # s2 # src) =
     (let val = push_bit 16 (ucast s0) OR push_bit 8 (ucast s1) OR ucast s2 :: 64 word
      in [encodeURL ! unat (drop_bit 18 val AND 0x3F),
          encodeURL ! unat (drop_bit 12 val AND 0x3F),
          encodeURL ! unat (drop_bit 6 val AND 0x3F),
          encodeURL ! unat (val AND 0x3F)] @ Encode src)"
| "Encode [s0, s1] =
     (let val = push_bit 16 (ucast s0) OR push_bit 8 (ucast s1) :: 64 word
      in [encodeURL ! unat (drop_bit 18 val AND 0x3F),
          encodeURL ! unat (drop_bit 12 val AND 0x3F),
          encodeURL ! unat (drop_bit 6 val AND 0x3F),
          padChar])"
| "Encode [s0] =
     (let val = push_bit 16 (ucast s0) :: 64 word
      in [encodeURL ! unat (drop_bit 18 val AND 0x3F),
          encodeURL ! unat (drop_bit 12 val AND 0x3F),
          padChar,
          padChar])"
| "Encode [] = []"

definition EncodeToString :: "byte list \<Rightarrow> string" where
  "EncodeToString src = Encode src"

text \<open>
  \<open>Encoding.decodeQuantum\<close> reads up to four characters of the alphabet from \<open>src[si:]\<close>,
  skipping line feeds and carriage returns, and writes up to three bytes. The model passes
  the unread rest of \<open>src\<close> along with the index \<open>si\<close>, which the errors report, and
  returns the rest, the new index, the bytes written and the error.
\<close>

fun skipNewlines :: "nat \<Rightarrow> string \<Rightarrow> nat \<times> string" where
  "skipNewlines si [] = (si, [])"
| "skipNewlines si (c # cs) =
     (if c = CHR 0x0A \<or> c = CHR 0x0D then skipNewlines (si + 1) cs else (si, c # cs))"

text \<open>The last step of \<open>decodeQuantum\<close>: four 6-bit values become \<open>dlen - 1\<close> bytes.\<close>

definition convertQuantum :: "byte list \<Rightarrow> nat \<Rightarrow> byte list" where
  "convertQuantum dbuf dlen =
     (let val = push_bit 18 (ucast (dbuf ! 0)) OR push_bit 12 (ucast (dbuf ! 1))
                  OR push_bit 6 (ucast (dbuf ! 2)) OR ucast (dbuf ! 3) :: 64 word
      in take (dlen - 1) [ucast (drop_bit 16 val), ucast (drop_bit 8 val), ucast val])"

text \<open>After the padding of a quantum only newlines may follow; anything else is trailing garbage.\<close>

definition decodeQuantum_trailing ::
  "nat \<Rightarrow> byte list \<Rightarrow> nat \<Rightarrow> string \<Rightarrow> string \<times> nat \<times> byte list \<times> error option" where
  "decodeQuantum_trailing j dbuf si cs =
     (case skipNewlines si cs of
        (si', []) \<Rightarrow> ([], si', convertQuantum dbuf j, None)
      | (si', c # cs') \<Rightarrow> (c # cs', si', convertQuantum dbuf j, Some (CorruptInputError (int si'))))"

text \<open>A padding character was read at position \<open>j\<close> of the quantum; \<open>si\<close> is the index after it.\<close>

definition decodeQuantum_padding ::
  "nat \<Rightarrow> byte list \<Rightarrow> nat \<Rightarrow> string \<Rightarrow> string \<times> nat \<times> byte list \<times> error option" where
  "decodeQuantum_padding j dbuf si cs =
     (if j = 0 \<or> j = 1 then (cs, si, [], Some (CorruptInputError (int si - 1)))
      else if j = 2 then
        (case skipNewlines si cs of
           (si', []) \<Rightarrow> ([], si', [], Some (CorruptInputError (int si')))
         | (si', c # cs') \<Rightarrow>
             if c \<noteq> padChar then (c # cs', si', [], Some (CorruptInputError (int si' - 1)))
             else decodeQuantum_trailing j dbuf (si' + 1) cs')
      else decodeQuantum_trailing j dbuf si cs)"

fun decodeQuantum_loop ::
  "nat \<Rightarrow> byte list \<Rightarrow> nat \<Rightarrow> string \<Rightarrow> string \<times> nat \<times> byte list \<times> error option" where
  "decodeQuantum_loop j dbuf si [] =
     (if j = 0 then ([], si, [], None)
      else ([], si, [], Some (CorruptInputError (int si - int j))))"
| "decodeQuantum_loop j dbuf si (c # cs) =
     (let out = decodeMap c in
      if out \<noteq> 0xFF then
        (if j = 3 then (cs, si + 1, convertQuantum (dbuf[j := out]) 4, None)
         else decodeQuantum_loop (j + 1) (dbuf[j := out]) (si + 1) cs)
      else if c = CHR 0x0A \<or> c = CHR 0x0D then decodeQuantum_loop j dbuf (si + 1) cs
      else if c \<noteq> padChar then (cs, si + 1, [], Some (CorruptInputError (int (si + 1) - 1)))
      else decodeQuantum_padding j dbuf (si + 1) cs)"

definition decodeQuantum :: "nat \<Rightarrow> string \<Rightarrow> string \<times> nat \<times> byte list \<times> error option" where
  "decodeQuantum si src = decodeQuantum_loop 0 [0, 0, 0, 0] si src"

text \<open>
  \<open>Encoding.Decode\<close>: one quantum after the other until the input is used up or a quantum
  fails; the bytes written so far are returned with the error. (The library decodes
  runs of eight and four valid characters in one step; the result is that of
  \<open>decodeQuantum\<close>, to which it falls back.)
\<close>

function Decode_loop :: "nat \<Rightarrow> string \<Rightarrow> byte list \<times> error option" where
  "Decode_loop si src =
     (if src = [] then ([], None)
      else (case decodeQuantum si src of
              (rest, nsi, out, Some err) \<Rightarrow> (out, Some err)
            | (rest, nsi, out, None) \<Rightarrow>
                (case Decode_loop nsi rest of (outs, err) \<Rightarrow> (out @ outs, err))))"
  by pat_completeness auto
termination
proof (relation "measure (\<lambda>(si, src). length src)")
  have skip: "length (snd (skipNewlines si cs)) \<le> length cs" for si cs
    by (induction si cs rule: skipNewlines.induct) auto
  have trail: "length (fst (decodeQuantum_trailing j dbuf si cs)) \<le> length cs" for j dbuf si cs
    using skip [of si cs]
    by (auto simp: decodeQuantum_trailing_def split: prod.splits list.splits)
  have pad: "length (fst (decodeQuantum_padding j dbuf si cs)) \<le> length cs" for j dbuf si cs
  proof -
    have "length (fst (decodeQuantum_trailing j dbuf (si' + 1) cs')) \<le> length cs"
      if "skipNewlines si cs = (si', c # cs')" for si' c cs'
      using trail [of j dbuf "si' + 1" cs'] skip [of si cs] that by simp
    then show ?thesis
      using skip [of si cs] trail [of j dbuf si cs]
      by (auto simp: decodeQuantum_padding_def split: prod.splits list.splits)
  qed
  have loop_le: "length (fst (decodeQuantum_loop j dbuf si src)) \<le> length src"
    for j dbuf si src
  proof (induction j dbuf si src rule: decodeQuantum_loop.induct)
    case (1 j dbuf si)
    then show ?case by simp
  next
    case (2 j dbuf si c cs)
    show ?case
      using "2.IH" pad [of j dbuf "si + 1" cs]
      by (auto simp: Let_def le_SucI)
  qed
  have loop: "length (fst (decodeQuantum_loop j dbuf si src)) < length src"
    if "src \<noteq> []" for j dbuf si src
  proof (cases src)
    case Nil
    with that show ?thesis by simp
  next
    case (Cons c cs)
    show ?thesis
      unfolding Cons
      using loop_le [of "j + 1" "dbuf[j := decodeMap c]" "si + 1" cs]
        loop_le [of j dbuf "si + 1" cs] pad [of j dbuf "si + 1" cs]
      by (auto simp: Let_def less_Suc_eq_le)
  qed
  show "wf (measure (\<lambda>(si, src). length src))" by simp
  show "((nsi, rest), (si, src)) \<in> measure (\<lambda>(si, src). length src)"
    if "src \<noteq> []" and "(rest, y) = decodeQuantum si src" and "(nsi, z) = y"
    for si src rest y nsi z
    using loop [OF that(1), of 0 "[0, 0, 0, 0]" si] that(2) [symmetric]
    by (simp add: decodeQuantum_def)
qed

declare Decode_loop.simps [simp del]

definition Decode :: "string \<Rightarrow> byte list \<times> error option" where
  "Decode src = (if length src = 0 then ([], None) else Decode_loop 0 src)"

definition DecodeString :: "string \<Rightarrow> byte list \<times> error option" where
  "DecodeString s = Decode s"

subsection \<open>crypto and crypto/hmac\<close>

text \<open>
  A \<open>crypto.Hash\<close> is represented by what the package uses of it: whether it is linked
  into the binary (\<open>Available()\<close>), and the block size and the digest function of the
  hash that \<open>New()\<close> returns. The hash functions themselves are parameters.
\<close>

record crypto_Hash =
  Available :: bool
  BlockSize :: nat
  HashSum :: "byte list \<Rightarrow> byte list"

text \<open>
  \<open>hmac.New(h, key)\<close>, \<open>Write(msg)\<close>, \<open>Sum(nil)\<close>: a key longer than a block is hashed
  first, the key is copied into the two pads of one block each, and the digest is
  \<open>H(opad || H(ipad || msg))\<close>.
\<close>

definition hmac_pad :: "nat \<Rightarrow> byte list \<Rightarrow> byte \<Rightarrow> byte list" where
  "hmac_pad blocksize key x =
     map (\<lambda>b. b XOR x) (take blocksize key @ replicate (blocksize - length key) 0)"

definition hmac_Sum :: "crypto_Hash \<Rightarrow> byte list \<Rightarrow> byte list \<Rightarrow> byte list" where
  "hmac_Sum h key msg =
     (let blocksize = BlockSize h;
          key = (if length key > blocksize then HashSum h key else key);
          ipad = hmac_pad blocksize key 0x36;
          opad = hmac_pad blocksize key 0x5C
      in HashSum h (opad @ HashSum h (ipad @ msg)))"

text \<open>\<open>hmac.Equal(mac1, mac2)\<close>\<close>

definition hmac_Equal :: "byte list \<Rightarrow> byte list \<Rightarrow> bool" where
  "hmac_Equal mac1 mac2 = (ConstantTimeCompare mac1 mac2 = 1)"

section \<open>token (src/token.go)\<close>

text \<open>
  A value of type \<open>interface{}\<close>: \<open>nil\<close>, a \<open>[]byte\<close>, a \<open>string\<close>, or a value of any
  other dynamic type.
\<close>

datatype 'a interface = NilValue | ByteSlice "byte list" | String string | Other 'a

text \<open>
  Modelled from the spec: the interface \<open>SigningMethod\<close>, which is declared outside the
  sources at hand: an algorithm identifier, the capability to sign a signing input with a
  key, giving the signature text or an error, and the capability to verify a signing input
  and a signature text with a key, giving an error or none.
\<close>

record 'a SigningMethod =
  Verify :: "string \<Rightarrow> string \<Rightarrow> 'a interface \<Rightarrow> error option"
  Sign :: "string \<Rightarrow> 'a interface \<Rightarrow> string \<times> error option"
  Alg :: string

text \<open>
  The struct \<open>Token\<close>. \<open>Method\<close> is an interface value, \<open>None\<close> when it is \<open>nil\<close>.
  \<open>Claims\<close> is any type with a \<open>Valid\<close> method; the type is a parameter.
\<close>

record ('a, 'c) Token =
  Raw :: string
  Method :: "'a SigningMethod option"
  Header :: "string \<rightharpoonup> 'a interface"
  Claims :: 'c
  Signature :: string
  Valid :: bool

text \<open>A call either returns or panics (a method called on a \<open>nil\<close> interface value).\<close>

datatype 'r outcome = Returns 'r | Panics

text \<open>\<open>func EncodeSegment(seg []byte) string\<close>\<close>

definition EncodeSegment :: "byte list \<Rightarrow> string" where
  "EncodeSegment seg = TrimRight (EncodeToString seg) ''=''"

text \<open>\<open>func DecodeSegment(seg string) ([]byte, error)\<close>\<close>

definition DecodeSegment :: "string \<Rightarrow> byte list \<times> error option" where
  "DecodeSegment seg =
     (let l = length seg mod 4;
          seg = (if l > 0 then seg @ Repeat ''='' (4 - l) else seg)
      in DecodeString seg)"

text \<open>\<open>func NewWithClaims(method SigningMethod, claims Claims) *Token\<close>\<close>

definition NewWithClaims :: "'a SigningMethod option \<Rightarrow> 'c \<Rightarrow> ('a, 'c) Token outcome" where
  "NewWithClaims method claims =
     (case method of
        None \<Rightarrow> Panics
      | Some m \<Rightarrow>
          Returns \<lparr>Raw = [], Method = method,
                   Header = [''typ'' \<mapsto> String ''JWT'', ''alg'' \<mapsto> String (Alg m)],
                   Claims = claims, Signature = [], Valid = False\<rparr>)"

text \<open>
  \<open>func (t *Token) SigningString() (string, error)\<close>. \<open>json.Marshal\<close> is a parameter; it
  is given the header map in the first round of the loop and the claims in the second.
\<close>

type_synonym ('a, 'c) json_Marshal =
  "(string \<rightharpoonup> 'a interface) + 'c \<Rightarrow> byte list \<times> error option"

fun SigningString_loop ::
  "('a, 'c) json_Marshal \<Rightarrow> ('a, 'c) Token \<Rightarrow> nat list \<Rightarrow> string list \<Rightarrow> string list \<times> error option" where
  "SigningString_loop json_Marshal t [] parts = (parts, None)"
| "SigningString_loop json_Marshal t (i # rest) parts =
     (case (if i = 0 then json_Marshal (Inl (Header t)) else json_Marshal (Inr (Claims t))) of
        (jsonValue, Some err) \<Rightarrow> (parts, Some err)
      | (jsonValue, None) \<Rightarrow>
          SigningString_loop json_Marshal t rest (parts[i := EncodeSegment jsonValue]))"

definition SigningString :: "('a, 'c) json_Marshal \<Rightarrow> ('a, 'c) Token \<Rightarrow> string \<times> error option" where
  "SigningString json_Marshal t =
     (case SigningString_loop json_Marshal t [0..<2] (replicate 2 []) of
        (parts, Some err) \<Rightarrow> ([], Some err)
      | (parts, None) \<Rightarrow> (Join parts ''.'', None))"

text \<open>\<open>func (t *Token) SignedString(key interface{}) (string, error)\<close>\<close>

definition SignedString ::
  "('a, 'c) json_Marshal \<Rightarrow> ('a, 'c) Token \<Rightarrow> 'a interface \<Rightarrow> (string \<times> error option) outcome" where
  "SignedString json_Marshal t key =
     (case SigningString json_Marshal t of
        (sstr, Some err) \<Rightarrow> Returns ([], Some err)
      | (sstr, None) \<Rightarrow>
          (case Method t of
             None \<Rightarrow> Panics
           | Some m \<Rightarrow>
               (case Sign m sstr key of
                  (sig, Some err) \<Rightarrow> Returns ([], Some err)
                | (sig, None) \<Rightarrow> Returns (Join [sstr, sig] ''.'', None))))"

section \<open>hmac (src/hmac.go)\<close>

record SigningMethodHMAC =
  Name :: string
  Hash :: crypto_Hash

text \<open>\<open>func (m *SigningMethodHMAC) Alg() string\<close>\<close>

definition SigningMethodHMAC_Alg :: "SigningMethodHMAC \<Rightarrow> string" where
  "SigningMethodHMAC_Alg m = Name m"

text \<open>\<open>func (m *SigningMethodHMAC) Verify(signingString, signature string, key interface{}) error\<close>\<close>

definition SigningMethodHMAC_Verify ::
  "SigningMethodHMAC \<Rightarrow> string \<Rightarrow> string \<Rightarrow> 'a interface \<Rightarrow> error option" where
  "SigningMethodHMAC_Verify m signingString signature key =
     (case key of
        ByteSlice keyBytes \<Rightarrow>
          (case DecodeSegment signature of
             (sig, Some err) \<Rightarrow> Some err
           | (sig, None) \<Rightarrow>
               if \<not> Available (Hash m) then Some ErrHashUnavailable
               else if \<not> hmac_Equal sig (hmac_Sum (Hash m) keyBytes (bytes_of signingString))
               then Some ErrSignatureInvalid
               else None)
      | _ \<Rightarrow> Some ErrInvalidKeyType)"

text \<open>\<open>func (m *SigningMethodHMAC) Sign(signingString string, key interface{}) (string, error)\<close>\<close>

definition SigningMethodHMAC_Sign ::
  "SigningMethodHMAC \<Rightarrow> string \<Rightarrow> 'a interface \<Rightarrow> string \<times> error option" where
  "SigningMethodHMAC_Sign m signingString key =
     (case key of
        ByteSlice keyBytes \<Rightarrow>
          if \<not> Available (Hash m) then ([], Some ErrHashUnavailable)
          else (EncodeSegment (hmac_Sum (Hash m) keyBytes (bytes_of signingString)), None)
      | _ \<Rightarrow> ([], Some ErrInvalidKeyType))"

text \<open>A \<open>*SigningMethodHMAC\<close> as a value of the interface \<open>SigningMethod\<close>.\<close>

definition SigningMethodHMAC_method :: "SigningMethodHMAC \<Rightarrow> 'a SigningMethod" where
  "SigningMethodHMAC_method m =
     \<lparr>Verify = SigningMethodHMAC_Verify m, Sign = SigningMethodHMAC_Sign m,
      Alg = SigningMethodHMAC_Alg m\<rparr>"

section \<open>Properties of the library model\<close>

subsection \<open>The decoding table\<close>

lemma length_encodeURL: "length encodeURL = 64"
  by (simp add: encodeURL_def)

lemma distinct_encodeURL: "distinct encodeURL"
  by (simp add: encodeURL_def)

lemma fold_update_other:
  "c \<notin> set (take n xs) \<Longrightarrow> n \<le> length xs \<Longrightarrow> fold (\<lambda>i m. m(xs ! i := f i)) [0..<n] d c = d c"
proof (induction n)
  case 0
  then show ?case by simp
next
  case (Suc n)
  then have "c \<noteq> xs ! n" "c \<notin> set (take n xs)" "n \<le> length xs"
    by (auto simp: take_Suc_conv_app_nth)
  with Suc.IH show ?case by simp
qed

lemma fold_update_nth:
  "distinct xs \<Longrightarrow> n \<le> length xs \<Longrightarrow> i < n \<Longrightarrow> fold (\<lambda>i m. m(xs ! i := f i)) [0..<n] d (xs ! i) = f i"
proof (induction n)
  case 0
  then show ?case by simp
next
  case (Suc n)
  show ?case
  proof (cases "i = n")
    case True
    then show ?thesis by simp
  next
    case False
    then have "i < n" using Suc.prems by simp
    moreover have "xs ! i \<noteq> xs ! n"
      using Suc.prems False by (simp add: nth_eq_iff_index_eq)
    ultimately show ?thesis using Suc by simp
  qed
qed

lemma decodeMap_nth: "i < 64 \<Longrightarrow> decodeMap (encodeURL ! i) = of_nat i"
  unfolding decodeMap_def
  by (rule fold_update_nth) (simp_all add: distinct_encodeURL length_encodeURL)

lemma decodeMap_notin: "c \<notin> set encodeURL \<Longrightarrow> decodeMap c = 0xFF"
  unfolding decodeMap_def
  by (subst fold_update_other) simp_all

lemma decodeMap_in: "c \<in> set encodeURL \<Longrightarrow> decodeMap c \<noteq> 0xFF"
proof -
  assume "c \<in> set encodeURL"
  then obtain i where i: "i < 64" "c = encodeURL ! i"
    by (metis in_set_conv_nth length_encodeURL)
  have "decodeMap c = of_nat i" using i decodeMap_nth by simp
  moreover have "(of_nat i :: byte) \<noteq> 0xFF"
  proof
    assume "(of_nat i :: byte) = 0xFF"
    then have "unat (of_nat i :: byte) = 255" by simp
    moreover have "unat (of_nat i :: byte) = i" using i(1) by (simp add: unat_of_nat take_bit_nat_eq_self)
    ultimately show False using i(1) by simp
  qed
  ultimately show ?thesis by simp
qed

lemma nonalpha: "CHR ''='' \<notin> set encodeURL" "CHR 0x0A \<notin> set encodeURL" "CHR 0x0D \<notin> set encodeURL"
  by (simp_all add: encodeURL_def)

subsection \<open>Six-bit groups\<close>

lemma sextet_lt: "unat ((w :: 64 word) AND 0x3F) < 64"
proof -
  have "w AND 0x3F \<le> 0x3F" by (rule word_and_le1)
  then show ?thesis by (simp add: word_le_nat_alt)
qed

lemma mask63: "(0x3F :: 64 word) = mask 6"
  by (simp add: mask_eq_exp_minus_1)

lemma dec_enc_sextet:
  "ucast (decodeMap (encodeURL ! unat ((w :: 64 word) AND 0x3F))) = (w AND 0x3F :: 64 word)"
proof -
  have "decodeMap (encodeURL ! unat (w AND 0x3F)) = of_nat (unat (w AND 0x3F))"
    by (rule decodeMap_nth) (rule sextet_lt)
  also have "\<dots> = (ucast (w AND 0x3F) :: byte)" by simp
  finally have "ucast (decodeMap (encodeURL ! unat (w AND 0x3F)))
                  = (ucast (ucast (w AND 0x3F) :: byte) :: 64 word)"
    by simp
  also have "\<dots> = w AND 0x3F"
    unfolding mask63 by (rule bit_word_eqI) (auto simp: bit_simps)
  finally show ?thesis .
qed

lemma encode_char_in: "encodeURL ! unat ((w :: 64 word) AND 0x3F) \<in> set encodeURL"
  using sextet_lt [of w] by (simp add: length_encodeURL)

lemma encode_char_ok: "decodeMap (encodeURL ! unat ((w :: 64 word) AND 0x3F)) \<noteq> 0xFF"
  by (rule decodeMap_in) (rule encode_char_in)

lemma assemble_gen:
  fixes w :: "64 word"
  assumes "take_bit 24 w = w"
  shows "push_bit 18 (drop_bit 18 w AND 0x3F) OR push_bit 12 (drop_bit 12 w AND 0x3F)
           OR push_bit 6 (drop_bit 6 w AND 0x3F) OR (w AND 0x3F) = w"
proof -
  have "push_bit 18 (drop_bit 18 w AND mask 6) OR push_bit 12 (drop_bit 12 w AND mask 6)
           OR push_bit 6 (drop_bit 6 w AND mask 6) OR (w AND mask 6) = take_bit 24 w"
  proof (rule bit_word_eqI)
    fix n assume "n < LENGTH(64)"
    consider "n < 6" | "6 \<le> n" "n < 12" | "12 \<le> n" "n < 18" | "18 \<le> n" "n < 24" | "24 \<le> n"
      by linarith
    then show "bit (push_bit 18 (drop_bit 18 w AND mask 6) OR push_bit 12 (drop_bit 12 w AND mask 6)
           OR push_bit 6 (drop_bit 6 w AND mask 6) OR (w AND mask 6)) n = bit (take_bit 24 w) n"
      by cases (auto simp: bit_simps)
  qed
  then show ?thesis using assms by (simp add: mask63)
qed

lemma val24:
  fixes a b c :: byte
  shows "take_bit 24 (push_bit 16 (ucast a) OR push_bit 8 (ucast b) OR ucast c :: 64 word)
         = push_bit 16 (ucast a) OR push_bit 8 (ucast b) OR ucast c"
  by (rule bit_word_eqI) (auto simp: bit_simps dest: bit_imp_le_length)

lemma byte0:
  fixes a b c :: byte
  shows "ucast (drop_bit 16 (push_bit 16 (ucast a) OR push_bit 8 (ucast b) OR ucast c :: 64 word)) = a"
  by (rule bit_word_eqI) (auto simp: bit_simps dest: bit_imp_le_length)

lemma byte1:
  fixes a b c :: byte
  shows "ucast (drop_bit 8 (push_bit 16 (ucast a) OR push_bit 8 (ucast b) OR ucast c :: 64 word)) = b"
  by (rule bit_word_eqI) (auto simp: bit_simps dest: bit_imp_le_length)

lemma byte2:
  fixes a b c :: byte
  shows "ucast (push_bit 16 (ucast a) OR push_bit 8 (ucast b) OR ucast c :: 64 word) = c"
  by (rule bit_word_eqI) (auto simp: bit_simps dest: bit_imp_le_length)

lemma low6_zero:
  fixes a b :: byte
  shows "(push_bit 16 (ucast a) OR push_bit 8 (ucast b) OR 0 :: 64 word) AND 0x3F = 0"
  unfolding mask63 by (rule bit_word_eqI) (auto simp: bit_simps)

lemma mid6_zero:
  fixes a :: byte
  shows "drop_bit 6 (push_bit 16 (ucast a) OR push_bit 8 0 OR 0 :: 64 word) AND 0x3F = 0"
  unfolding mask63 by (rule bit_word_eqI) (auto simp: bit_simps)

subsection \<open>Decoding what was encoded\<close>

lemma convertQuantum_Cons:
  "convertQuantum [d0, d1, d2, d3] n =
     take (n - 1)
       [ucast (drop_bit 16 (push_bit 18 (ucast d0) OR push_bit 12 (ucast d1)
                              OR push_bit 6 (ucast d2) OR ucast d3 :: 64 word)),
        ucast (drop_bit 8 (push_bit 18 (ucast d0) OR push_bit 12 (ucast d1)
                              OR push_bit 6 (ucast d2) OR ucast d3 :: 64 word)),
        ucast (push_bit 18 (ucast d0) OR push_bit 12 (ucast d1)
                              OR push_bit 6 (ucast d2) OR ucast d3 :: 64 word)]"
  by (simp add: convertQuantum_def)

lemma convert3:
  fixes a b c :: byte
  defines "val \<equiv> push_bit 16 (ucast a) OR push_bit 8 (ucast b) OR ucast c :: 64 word"
  shows "convertQuantum [decodeMap (encodeURL ! unat (drop_bit 18 val AND 0x3F)),
                         decodeMap (encodeURL ! unat (drop_bit 12 val AND 0x3F)),
                         decodeMap (encodeURL ! unat (drop_bit 6 val AND 0x3F)),
                         decodeMap (encodeURL ! unat (val AND 0x3F))] 4 = [a, b, c]"
proof -
  have v: "take_bit 24 val = val" unfolding val_def by (rule val24)
  have b: "ucast (drop_bit 16 val) = a" "ucast (drop_bit 8 val) = b" "ucast val = c"
    unfolding val_def by (rule byte0 byte1 byte2)+
  show ?thesis
    unfolding convertQuantum_Cons dec_enc_sextet assemble_gen [OF v] b by simp
qed

lemma convert2:
  fixes a b :: byte
  defines "val \<equiv> push_bit 16 (ucast a) OR push_bit 8 (ucast b) :: 64 word"
  shows "convertQuantum [decodeMap (encodeURL ! unat (drop_bit 18 val AND 0x3F)),
                         decodeMap (encodeURL ! unat (drop_bit 12 val AND 0x3F)),
                         decodeMap (encodeURL ! unat (drop_bit 6 val AND 0x3F)),
                         0] 3 = [a, b]"
proof -
  have val: "val = push_bit 16 (ucast a) OR push_bit 8 (ucast b) OR ucast (0 :: byte)"
    unfolding val_def by simp
  have v: "take_bit 24 val = val" unfolding val by (rule val24)
  have z: "val AND 0x3F = 0" unfolding val_def using low6_zero [of a b] by simp
  have "push_bit 18 (drop_bit 18 val AND 0x3F) OR push_bit 12 (drop_bit 12 val AND 0x3F)
           OR push_bit 6 (drop_bit 6 val AND 0x3F) OR (val AND 0x3F) = val"
    by (rule assemble_gen [OF v])
  then have w: "push_bit 18 (drop_bit 18 val AND 0x3F) OR push_bit 12 (drop_bit 12 val AND 0x3F)
           OR push_bit 6 (drop_bit 6 val AND 0x3F) OR ucast (0 :: byte) = val"
    unfolding z by simp
  have b: "ucast (drop_bit 16 val) = a" "ucast (drop_bit 8 val) = b"
    unfolding val by (rule byte0 byte1)+
  show ?thesis
    unfolding convertQuantum_Cons dec_enc_sextet w b by simp
qed

lemma convert1:
  fixes a :: byte
  defines "val \<equiv> push_bit 16 (ucast a) :: 64 word"
  shows "convertQuantum [decodeMap (encodeURL ! unat (drop_bit 18 val AND 0x3F)),
                         decodeMap (encodeURL ! unat (drop_bit 12 val AND 0x3F)),
                         0, 0] 2 = [a]"
proof -
  have val: "val = push_bit 16 (ucast a) OR push_bit 8 (ucast (0 :: byte)) OR ucast (0 :: byte)"
    unfolding val_def by simp
  have v: "take_bit 24 val = val" unfolding val by (rule val24)
  have z: "val AND 0x3F = 0" unfolding val_def using low6_zero [of a 0] by simp
  have z2: "drop_bit 6 val AND 0x3F = 0" unfolding val_def using mid6_zero [of a] by simp
  have "push_bit 18 (drop_bit 18 val AND 0x3F) OR push_bit 12 (drop_bit 12 val AND 0x3F)
           OR push_bit 6 (drop_bit 6 val AND 0x3F) OR (val AND 0x3F) = val"
    by (rule assemble_gen [OF v])
  then have w: "push_bit 18 (drop_bit 18 val AND 0x3F) OR push_bit 12 (drop_bit 12 val AND 0x3F)
           OR push_bit 6 (ucast (0 :: byte)) OR ucast (0 :: byte) = val"
    unfolding z z2 by simp
  have b: "ucast (drop_bit 16 val) = a"
    unfolding val by (rule byte0)
  show ?thesis
    unfolding convertQuantum_Cons dec_enc_sextet w b by simp
qed


lemma decodeMap_pad: "decodeMap padChar = 0xFF"
  by (rule decodeMap_notin) (simp add: padChar_def nonalpha)

lemma pad_not_nl: "padChar \<noteq> CHR 0x0A" "padChar \<noteq> CHR 0x0D"
  by (simp_all add: padChar_def)

text \<open>A quantum of four characters of the alphabet.\<close>

lemma decodeQuantum_full:
  assumes "decodeMap c0 \<noteq> 0xFF" "decodeMap c1 \<noteq> 0xFF" "decodeMap c2 \<noteq> 0xFF" "decodeMap c3 \<noteq> 0xFF"
  shows "decodeQuantum si (c0 # c1 # c2 # c3 # cs) =
           (cs, si + 4, convertQuantum [decodeMap c0, decodeMap c1, decodeMap c2, decodeMap c3] 4, None)"
  using assms by (simp add: decodeQuantum_def)

lemma decodeQuantum_pad1:
  assumes "decodeMap c0 \<noteq> 0xFF" "decodeMap c1 \<noteq> 0xFF" "decodeMap c2 \<noteq> 0xFF"
  shows "decodeQuantum si [c0, c1, c2, padChar] =
           ([], si + 4, convertQuantum [decodeMap c0, decodeMap c1, decodeMap c2, 0] 3, None)"
  using assms
  by (simp add: decodeQuantum_def decodeMap_pad pad_not_nl decodeQuantum_padding_def
      decodeQuantum_trailing_def eval_nat_numeral)

lemma decodeQuantum_pad2:
  assumes "decodeMap c0 \<noteq> 0xFF" "decodeMap c1 \<noteq> 0xFF"
  shows "decodeQuantum si [c0, c1, padChar, padChar] =
           ([], si + 4, convertQuantum [decodeMap c0, decodeMap c1, 0, 0] 2, None)"
  using assms
  by (simp add: decodeQuantum_def decodeMap_pad pad_not_nl decodeQuantum_padding_def
      decodeQuantum_trailing_def eval_nat_numeral)

lemma Decode_loop_Nil: "Decode_loop si [] = ([], None)"
  by (subst Decode_loop.simps) simp

lemma Decode_loop_Encode: "Decode_loop si (Encode b) = (b, None)"
proof (induction b arbitrary: si rule: Encode.induct)
  case (1 s0 s1 s2 src)
  define val :: "64 word" where "val = push_bit 16 (ucast s0) OR push_bit 8 (ucast s1) OR ucast s2"
  define c0 where "c0 = encodeURL ! unat (drop_bit 18 val AND 0x3F)"
  define c1 where "c1 = encodeURL ! unat (drop_bit 12 val AND 0x3F)"
  define c2 where "c2 = encodeURL ! unat (drop_bit 6 val AND 0x3F)"
  define c3 where "c3 = encodeURL ! unat (val AND 0x3F)"
  have E: "Encode (s0 # s1 # s2 # src) = c0 # c1 # c2 # c3 # Encode src"
    by (simp add: Let_def c0_def c1_def c2_def c3_def val_def)
  have ok: "decodeMap c0 \<noteq> 0xFF" "decodeMap c1 \<noteq> 0xFF" "decodeMap c2 \<noteq> 0xFF" "decodeMap c3 \<noteq> 0xFF"
    unfolding c0_def c1_def c2_def c3_def by (rule encode_char_ok)+
  have cv: "convertQuantum [decodeMap c0, decodeMap c1, decodeMap c2, decodeMap c3] 4 = [s0, s1, s2]"
    unfolding c0_def c1_def c2_def c3_def val_def by (rule convert3)
  have Q: "decodeQuantum si (c0 # c1 # c2 # c3 # Encode src) = (Encode src, si + 4, [s0, s1, s2], None)"
    by (simp add: decodeQuantum_full ok cv)
  show ?case
    unfolding E by (subst Decode_loop.simps) (simp add: Q "1.IH")
next
  case (2 s0 s1)
  define val :: "64 word" where "val = push_bit 16 (ucast s0) OR push_bit 8 (ucast s1)"
  define c0 where "c0 = encodeURL ! unat (drop_bit 18 val AND 0x3F)"
  define c1 where "c1 = encodeURL ! unat (drop_bit 12 val AND 0x3F)"
  define c2 where "c2 = encodeURL ! unat (drop_bit 6 val AND 0x3F)"
  have E: "Encode [s0, s1] = [c0, c1, c2, padChar]"
    by (simp add: Let_def c0_def c1_def c2_def val_def)
  have ok: "decodeMap c0 \<noteq> 0xFF" "decodeMap c1 \<noteq> 0xFF" "decodeMap c2 \<noteq> 0xFF"
    unfolding c0_def c1_def c2_def by (rule encode_char_ok)+
  have cv: "convertQuantum [decodeMap c0, decodeMap c1, decodeMap c2, 0] 3 = [s0, s1]"
    unfolding c0_def c1_def c2_def val_def by (rule convert2)
  have Q: "decodeQuantum si [c0, c1, c2, padChar] = ([], si + 4, [s0, s1], None)"
    by (simp add: decodeQuantum_pad1 ok cv)
  show ?case
    unfolding E by (subst Decode_loop.simps) (simp add: Q Decode_loop_Nil)
next
  case (3 s0)
  define val :: "64 word" where "val = push_bit 16 (ucast s0)"
  define c0 where "c0 = encodeURL ! unat (drop_bit 18 val AND 0x3F)"
  define c1 where "c1 = encodeURL ! unat (drop_bit 12 val AND 0x3F)"
  have E: "Encode [s0] = [c0, c1, padChar, padChar]"
    by (simp add: Let_def c0_def c1_def val_def)
  have ok: "decodeMap c0 \<noteq> 0xFF" "decodeMap c1 \<noteq> 0xFF"
    unfolding c0_def c1_def by (rule encode_char_ok)+
  have cv: "convertQuantum [decodeMap c0, decodeMap c1, 0, 0] 2 = [s0]"
    unfolding c0_def c1_def val_def by (rule convert1)
  have Q: "decodeQuantum si [c0, c1, padChar, padChar] = ([], si + 4, [s0], None)"
    by (simp add: decodeQuantum_pad2 ok cv)
  show ?case
    unfolding E by (subst Decode_loop.simps) (simp add: Q Decode_loop_Nil)
next
  case 4
  show ?case by (simp add: Decode_loop_Nil)
qed

lemma Decode_eq: "Decode src = Decode_loop 0 src"
  by (simp add: Decode_def Decode_loop_Nil)

lemma DecodeString_EncodeToString: "DecodeString (EncodeToString b) = (b, None)"
  by (simp add: DecodeString_def EncodeToString_def Decode_eq Decode_loop_Encode)

text \<open>The shape of an encoding: characters of the alphabet, then at most two padding characters.\<close>

lemma Encode_shape:
  "\<exists>body k. Encode b = body @ replicate k padChar \<and> set body \<subseteq> set encodeURL
      \<and> k \<le> 2 \<and> (length body + k) mod 4 = 0"
proof (induction b rule: Encode.induct)
  case (1 s0 s1 s2 src)
  from "1.IH" [OF refl] obtain body k where IH: "Encode src = body @ replicate k padChar" "set body \<subseteq> set encodeURL"
      "k \<le> 2" "(length body + k) mod 4 = 0"
    by (elim exE conjE)
  define val :: "64 word" where "val = push_bit 16 (ucast s0) OR push_bit 8 (ucast s1) OR ucast s2"
  define q where "q = [encodeURL ! unat (drop_bit 18 val AND 0x3F),
          encodeURL ! unat (drop_bit 12 val AND 0x3F),
          encodeURL ! unat (drop_bit 6 val AND 0x3F),
          encodeURL ! unat (val AND 0x3F)]"
  have E: "Encode (s0 # s1 # s2 # src) = q @ Encode src"
    by (simp add: Let_def q_def val_def)
  have q: "set q \<subseteq> set encodeURL" "length q = 4"
    unfolding q_def using encode_char_in by auto
  show ?case
  proof (intro exI conjI)
    show "Encode (s0 # s1 # s2 # src) = (q @ body) @ replicate k padChar"
      unfolding E IH(1) by simp
    show "set (q @ body) \<subseteq> set encodeURL" using q(1) IH(2) by simp
    show "k \<le> 2" by (rule IH(3))
    show "(length (q @ body) + k) mod 4 = 0" using q(2) IH(4) by (simp add: add.assoc)
  qed
next
  case (2 s0 s1)
  define val :: "64 word" where "val = push_bit 16 (ucast s0) OR push_bit 8 (ucast s1)"
  define q where "q = [encodeURL ! unat (drop_bit 18 val AND 0x3F),
          encodeURL ! unat (drop_bit 12 val AND 0x3F),
          encodeURL ! unat (drop_bit 6 val AND 0x3F)]"
  have E: "Encode [s0, s1] = q @ replicate 1 padChar"
    by (simp add: Let_def q_def val_def)
  have q: "set q \<subseteq> set encodeURL" "length q = 3"
    unfolding q_def using encode_char_in by auto
  show ?case
    unfolding E
    by (rule exI [of _ q], rule exI [of _ 1]) (use q in simp)
next
  case (3 s0)
  define val :: "64 word" where "val = push_bit 16 (ucast s0)"
  define q where "q = [encodeURL ! unat (drop_bit 18 val AND 0x3F),
          encodeURL ! unat (drop_bit 12 val AND 0x3F)]"
  have E: "Encode [s0] = q @ replicate 2 padChar"
    by (simp add: Let_def q_def val_def eval_nat_numeral)
  have q: "set q \<subseteq> set encodeURL" "length q = 2"
    unfolding q_def using encode_char_in by auto
  show ?case
    unfolding E
    by (rule exI [of _ q], rule exI [of _ 2]) (use q in simp)
next
  case 4
  show ?case by simp
qed

lemma TrimRight_pad:
  assumes "padChar \<notin> set body"
  shows "TrimRight (body @ replicate k padChar) ''='' = body"
proof -
  have "dropWhile (\<lambda>c. c = padChar) (replicate k padChar @ rev body)
          = dropWhile (\<lambda>c. c = padChar) (rev body)"
    by (rule dropWhile_append2) simp
  also have "\<dots> = rev body"
    using assms by (cases "rev body") auto
  finally show ?thesis
    by (simp add: TrimRight_def padChar_def)
qed

lemma repad:
  assumes "k \<le> 2" "(length body + k) mod 4 = 0"
  shows "(if length body mod 4 > 0 then body @ Repeat ''='' (4 - length body mod 4) else body)
           = body @ replicate k padChar"
proof -
  have R: "Repeat ''='' n = replicate n padChar" for n
    by (induction n) (simp_all add: Repeat_def padChar_def)
  have "k = 0 \<and> length body mod 4 = 0 \<or> k = 1 \<and> length body mod 4 = 3 \<or> k = 2 \<and> length body mod 4 = 2"
    using assms by presburger
  then show ?thesis by (auto simp: R)
qed

lemma pad_notin_alphabet: "set body \<subseteq> set encodeURL \<Longrightarrow> padChar \<notin> set body"
  using nonalpha(1) by (auto simp: padChar_def)

lemma DecodeSegment_EncodeSegment: "DecodeSegment (EncodeSegment b) = (b, None)"
proof -
  obtain body k where E: "Encode b = body @ replicate k padChar" and body: "set body \<subseteq> set encodeURL"
    and k: "k \<le> 2" "(length body + k) mod 4 = 0"
    using Encode_shape [of b] by (elim exE conjE)
  have seg: "EncodeSegment b = body"
    by (simp add: EncodeSegment_def EncodeToString_def E TrimRight_pad pad_notin_alphabet [OF body])
  have "DecodeSegment body = DecodeString (body @ replicate k padChar)"
    unfolding DecodeSegment_def Let_def by (simp only: repad [OF k])
  also have "\<dots> = (b, None)"
    using DecodeString_EncodeToString [of b] by (simp add: EncodeToString_def E)
  finally show ?thesis by (simp add: seg)
qed

lemma EncodeSegment_alphabet: "set (EncodeSegment b) \<subseteq> set encodeURL"
proof -
  obtain body k where E: "Encode b = body @ replicate k padChar" and body: "set body \<subseteq> set encodeURL"
    using Encode_shape [of b] by (elim exE conjE)
  have seg: "EncodeSegment b = body"
    by (simp add: EncodeSegment_def EncodeToString_def E TrimRight_pad pad_notin_alphabet [OF body])
  show ?thesis using body by (simp add: seg)
qed

subsection \<open>What the decoder accepts\<close>

lemma skipNewlines_split:
  "skipNewlines si cs = (si', r) \<Longrightarrow>
     \<exists>nl. cs = nl @ r \<and> set nl \<subseteq> {CHR 0x0A, CHR 0x0D} \<and> si' = si + length nl"
proof (induction si cs rule: skipNewlines.induct)
  case (1 si)
  then show ?case by simp
next
  case (2 si c cs)
  show ?case
  proof (cases "c = CHR 0x0A \<or> c = CHR 0x0D")
    case True
    with 2 obtain nl where "cs = nl @ r" "set nl \<subseteq> {CHR 0x0A, CHR 0x0D}" "si' = si + 1 + length nl"
      by auto
    then show ?thesis
      using True by (intro exI [of _ "c # nl"]) auto
  next
    case False
    with "2.prems" show ?thesis by (intro exI [of _ "[]"]) auto
  qed
qed

lemma trailing_None:
  assumes "decodeQuantum_trailing j dbuf si cs = (rest, nsi, out, None)"
  shows "rest = [] \<and> set cs \<subseteq> {CHR 0x0A, CHR 0x0D}"
proof -
  obtain si' r where s: "skipNewlines si cs = (si', r)" by (cases "skipNewlines si cs")
  with assms have "r = []" "rest = []"
    by (auto simp: decodeQuantum_trailing_def split: list.splits)
  then show ?thesis using skipNewlines_split [OF s] by auto
qed

lemma padding_None:
  assumes "decodeQuantum_padding j dbuf si cs = (rest, nsi, out, None)"
  shows "rest = [] \<and> set cs \<subseteq> {CHR 0x0A, CHR 0x0D, padChar} \<and> count_list cs padChar \<le> 1"
proof (cases "j = 2")
  case True
  obtain si' r where s: "skipNewlines si cs = (si', r)" by (cases "skipNewlines si cs")
  then obtain nl where nl: "cs = nl @ r" "set nl \<subseteq> {CHR 0x0A, CHR 0x0D}"
    using skipNewlines_split by blast
  from assms True s obtain cs' where r: "r = padChar # cs'"
    and t: "decodeQuantum_trailing j dbuf (si' + 1) cs' = (rest, nsi, out, None)"
    by (auto simp: decodeQuantum_padding_def split: list.splits if_splits)
  have c: "count_list nl padChar = 0" "count_list cs' padChar = 0"
    using nl(2) trailing_None [OF t] by (auto simp: padChar_def count_list_0_iff)
  show ?thesis
    using trailing_None [OF t] nl r c by auto
next
  case False
  with assms have t: "decodeQuantum_trailing j dbuf si cs = (rest, nsi, out, None)"
    by (auto simp: decodeQuantum_padding_def split: if_splits)
  have "count_list cs padChar = 0"
    using trailing_None [OF t] by (auto simp: padChar_def count_list_0_iff)
  then show ?thesis using trailing_None [OF t] by auto
qed

lemma decodeMap_ok_not_special:
  "decodeMap c \<noteq> 0xFF \<Longrightarrow> c \<in> set encodeURL \<and> c \<noteq> padChar"
  using decodeMap_notin [of c] decodeMap_pad by auto

lemma loop_None:
  "decodeQuantum_loop j dbuf si src = (rest, nsi, out, None) \<Longrightarrow>
     (\<exists>used. src = used @ rest \<and> set used \<subseteq> set encodeURL \<union> {CHR 0x0A, CHR 0x0D, padChar}) \<and>
     (rest = [] \<and> count_list src padChar \<le> 2 \<or> count_list rest padChar = count_list src padChar)"
proof (induction j dbuf si src rule: decodeQuantum_loop.induct)
  case (1 j dbuf si)
  then show ?case by (auto split: if_splits)
next
  case (2 j dbuf si c cs)
  show ?case
  proof (cases "decodeMap c \<noteq> 0xFF")
    case True
    note ok = decodeMap_ok_not_special [OF True]
    show ?thesis
    proof (cases "j = 3")
      case True
      with \<open>decodeMap c \<noteq> 0xFF\<close> "2.prems" have "rest = cs" by (simp add: Let_def)
      then show ?thesis using ok by (auto intro: exI [of _ "[c]"])
    next
      case False
      with \<open>decodeMap c \<noteq> 0xFF\<close> "2.prems"
      have "decodeQuantum_loop (j + 1) (dbuf[j := decodeMap c]) (si + 1) cs = (rest, nsi, out, None)"
        by (simp add: Let_def)
      from "2.IH"(1) [OF refl \<open>decodeMap c \<noteq> 0xFF\<close> False this]
      obtain used where u: "cs = used @ rest"
        "set used \<subseteq> set encodeURL \<union> {CHR 0x0A, CHR 0x0D, padChar}"
        and cnt: "rest = [] \<and> count_list cs padChar \<le> 2 \<or> count_list rest padChar = count_list cs padChar"
        by blast
      have "c # cs = (c # used) @ rest" using u by simp
      moreover have "set (c # used) \<subseteq> set encodeURL \<union> {CHR 0x0A, CHR 0x0D, padChar}"
        using u ok by simp
      ultimately show ?thesis using cnt ok by (intro conjI exI [of _ "c # used"]) auto
    qed
  next
    case False
    then have ff: "decodeMap c = 0xFF" by simp
    show ?thesis
    proof (cases "c = CHR 0x0A \<or> c = CHR 0x0D")
      case True
      with ff "2.prems"
      have "decodeQuantum_loop j dbuf (si + 1) cs = (rest, nsi, out, None)"
        by (auto simp: Let_def)
      from "2.IH"(2) [OF refl \<open>\<not> decodeMap c \<noteq> 0xFF\<close> True this]
      obtain used where u: "cs = used @ rest"
        "set used \<subseteq> set encodeURL \<union> {CHR 0x0A, CHR 0x0D, padChar}"
        and cnt: "rest = [] \<and> count_list cs padChar \<le> 2 \<or> count_list rest padChar = count_list cs padChar"
        by blast
      have "c # cs = (c # used) @ rest" using u by simp
      moreover have "set (c # used) \<subseteq> set encodeURL \<union> {CHR 0x0A, CHR 0x0D, padChar}"
        using u True by auto
      moreover have "c \<noteq> padChar" using True by (auto simp: padChar_def)
      ultimately show ?thesis using cnt by (intro conjI exI [of _ "c # used"]) auto
    next
      case False
      with ff "2.prems" have c: "c = padChar"
        and p: "decodeQuantum_padding j dbuf (si + 1) cs = (rest, nsi, out, None)"
        by (auto simp: Let_def split: if_splits)
      from padding_None [OF p] show ?thesis
        using c by (intro conjI exI [of _ "c # cs"]) auto
    qed
  qed
qed


lemma Decode_loop_None:
  "snd (Decode_loop si src) = None \<Longrightarrow>
     set src \<subseteq> set encodeURL \<union> {CHR 0x0A, CHR 0x0D, padChar} \<and> count_list src padChar \<le> 2"
proof (induction si src rule: Decode_loop.induct)
  case (1 si src)
  show ?case
  proof (cases "src = []")
    case True
    then show ?thesis by simp
  next
    case False
    obtain rest nsi out err where q: "decodeQuantum si src = (rest, nsi, out, err)"
      by (cases "decodeQuantum si src")
    from "1.prems" False q have err: "err = None" and d: "snd (Decode_loop nsi rest) = None"
      by (auto simp: Decode_loop.simps [of si src] split: option.splits prod.splits)
    have IH: "set rest \<subseteq> set encodeURL \<union> {CHR 0x0A, CHR 0x0D, padChar} \<and> count_list rest padChar \<le> 2"
      using "1.IH" [OF False q [symmetric] refl refl] err d by simp
    from q err have "decodeQuantum_loop 0 [0, 0, 0, 0] si src = (rest, nsi, out, None)"
      by (simp add: decodeQuantum_def)
    from loop_None [OF this] obtain used where u: "src = used @ rest"
        "set used \<subseteq> set encodeURL \<union> {CHR 0x0A, CHR 0x0D, padChar}"
      and cnt: "rest = [] \<and> count_list src padChar \<le> 2 \<or> count_list rest padChar = count_list src padChar"
      by blast
    show ?thesis using u cnt IH by auto
  qed
qed

lemma quantum_error_kind:
  "decodeQuantum_loop j dbuf si src = (rest, nsi, out, Some e) \<Longrightarrow> \<exists>p. e = CorruptInputError p"
proof (induction j dbuf si src rule: decodeQuantum_loop.induct)
  case (1 j dbuf si)
  then show ?case by (auto split: if_splits)
next
  case (2 j dbuf si c cs)
  have t: "\<exists>p. e = CorruptInputError p"
    if "decodeQuantum_trailing j' dbuf' si' cs' = (rest, nsi, out, Some e)" for j' dbuf' si' cs'
    using that by (auto simp: decodeQuantum_trailing_def split: prod.splits list.splits)
  have p: "\<exists>p. e = CorruptInputError p"
    if "decodeQuantum_padding j dbuf (si + 1) cs = (rest, nsi, out, Some e)"
    using that t by (auto simp: decodeQuantum_padding_def split: prod.splits list.splits if_splits)
  from "2.prems" "2.IH" p show ?case
    by (auto simp: Let_def split: if_splits)
qed

lemma Decode_loop_error_kind:
  "snd (Decode_loop si src) = Some e \<Longrightarrow> \<exists>p. e = CorruptInputError p"
proof (induction si src rule: Decode_loop.induct)
  case (1 si src)
  show ?case
  proof (cases "src = []")
    case True
    with "1.prems" show ?thesis by (simp add: Decode_loop_Nil)
  next
    case False
    obtain rest nsi out err where q: "decodeQuantum si src = (rest, nsi, out, err)"
      by (cases "decodeQuantum si src")
    show ?thesis
    proof (cases err)
      case None
      with "1.prems" False q have "snd (Decode_loop nsi rest) = Some e"
        by (auto simp: Decode_loop.simps [of si src] split: prod.splits)
      with "1.IH" [OF False q [symmetric] refl refl] None show ?thesis by simp
    next
      case (Some e')
      with "1.prems" False q have "e' = e"
        by (auto simp: Decode_loop.simps [of si src])
      with q Some show ?thesis
        using quantum_error_kind [of 0 "[0, 0, 0, 0]" si src rest nsi out e]
        by (simp add: decodeQuantum_def)
    qed
  qed
qed

lemma Decode_loop_alphabet:
  "set seg \<subseteq> set encodeURL \<Longrightarrow> k \<le> 2 \<Longrightarrow> (length seg + k) mod 4 = 0 \<Longrightarrow>
     snd (Decode_loop si (seg @ replicate k padChar)) = None"
proof (induction seg arbitrary: si rule: length_induct)
  case (1 seg)
  have ok: "decodeMap c \<noteq> 0xFF" if "c \<in> set seg" for c
    using that "1.prems"(1) decodeMap_in by auto
  show ?case
  proof (cases "length seg \<ge> 4")
    case True
    then obtain c0 c1 c2 c3 seg' where seg: "seg = c0 # c1 # c2 # c3 # seg'"
      by (cases seg; cases "tl seg"; cases "tl (tl seg)"; cases "tl (tl (tl seg))") auto
    have q: "decodeQuantum si (c0 # c1 # c2 # c3 # seg' @ replicate k padChar) =
        (seg' @ replicate k padChar, si + 4,
         convertQuantum [decodeMap c0, decodeMap c1, decodeMap c2, decodeMap c3] 4, None)"
      using ok seg by (intro decodeQuantum_full) auto
    have "snd (Decode_loop (si + 4) (seg' @ replicate k padChar)) = None"
      using "1.IH" "1.prems" seg by simp
    then show ?thesis
      unfolding seg by (subst Decode_loop.simps) (auto simp: q split: prod.splits)
  next
    case False
    then consider "seg = []" "k = 0" | c0 c1 where "seg = [c0, c1]" "k = 2"
      | c0 c1 c2 where "seg = [c0, c1, c2]" "k = 1"
    proof -
      assume a: "seg = [] \<Longrightarrow> k = 0 \<Longrightarrow> thesis"
        "\<And>c0 c1. seg = [c0, c1] \<Longrightarrow> k = 2 \<Longrightarrow> thesis"
        "\<And>c0 c1 c2. seg = [c0, c1, c2] \<Longrightarrow> k = 1 \<Longrightarrow> thesis"
      have "length seg = 0 \<and> k = 0 \<or> length seg = 2 \<and> k = 2 \<or> length seg = 3 \<and> k = 1"
        using False "1.prems"(2,3) by presburger
      then show thesis
        using a by (cases seg; cases "tl seg"; cases "tl (tl seg)"; cases "tl (tl (tl seg))") auto
    qed
    then show ?thesis
    proof cases
      case 1
      then show ?thesis by (simp add: Decode_loop_Nil)
    next
      case 2
      have "decodeQuantum si [c0, c1, padChar, padChar] =
           ([], si + 4, convertQuantum [decodeMap c0, decodeMap c1, 0, 0] 2, None)"
        using ok 2 by (intro decodeQuantum_pad2) auto
      then show ?thesis
        unfolding 2 by (subst Decode_loop.simps) (simp add: Decode_loop_Nil eval_nat_numeral)
    next
      case 3
      have "decodeQuantum si [c0, c1, c2, padChar] =
           ([], si + 4, convertQuantum [decodeMap c0, decodeMap c1, decodeMap c2, 0] 3, None)"
        using ok 3 by (intro decodeQuantum_pad1) auto
      then show ?thesis
        unfolding 3 by (subst Decode_loop.simps) (simp add: Decode_loop_Nil)
    qed
  qed
qed

lemma DecodeSegment_repad:
  "DecodeSegment seg = DecodeString (seg @ replicate ((4 - length seg mod 4) mod 4) padChar)"
proof -
  have R: "Repeat ''='' n = replicate n padChar" for n
    by (induction n) (simp_all add: Repeat_def padChar_def)
  show ?thesis
    by (auto simp: DecodeSegment_def Let_def R)
qed


lemma mod4_cases: "(n::nat) mod 4 = 0 \<or> n mod 4 = 1 \<or> n mod 4 = 2 \<or> n mod 4 = 3"
proof -
  have "n mod 4 < 4" by simp
  then show ?thesis by linarith
qed

lemma repad_len: "((n::nat) + (4 - n mod 4) mod 4) mod 4 = 0"
proof -
  have "(n + k) mod 4 = (n mod 4 + k) mod 4" for k by (simp add: mod_add_left_eq)
  then show ?thesis using mod4_cases [of n] by auto
qed

lemma repad_le: "(n::nat) mod 4 \<noteq> 1 \<Longrightarrow> (4 - n mod 4) mod 4 \<le> 2"
  using mod4_cases [of n] by auto

section \<open>Properties of the claim checks\<close>

lemma ValidationError_bits:
  "ValidationErrorExpired = 16" "ValidationErrorIssuedAt = 32" "ValidationErrorNotValidYet = 128"
  by (simp_all add: ValidationErrorExpired_def ValidationErrorIssuedAt_def
      ValidationErrorNotValidYet_def)

text \<open>What \<open>Valid\<close> returns, in terms of the three checks.\<close>

lemma StandardClaims_Valid_eq:
  "StandardClaims_Valid TimeFunc c =
     (let now = Unix (TimeFunc ());
          e = verifyExp (ExpiresAt c) now False;
          i = verifyIat (IssuedAt c) now False;
          n = verifyNbf (NotBefore c) now False
      in if e \<and> i \<and> n then None
         else Some \<lparr>Inner = Some (if \<not> n then Errorf ''token is not valid yet'' []
                                  else if \<not> i then Errorf ''Token used before issued'' []
                                  else Errorf ''token is expired by %v''
                                         [Time_Sub (UnixTime now) (UnixTime (ExpiresAt c))]),
                    Errors = (if e then 0 else ValidationErrorExpired)
                               OR (if i then 0 else ValidationErrorIssuedAt)
                               OR (if n then 0 else ValidationErrorNotValidYet),
                    text' = []\<rparr>)"
  by (simp add: StandardClaims_Valid_def Let_def valid_def VerifyExpiresAt_def
      VerifyIssuedAt_def VerifyNotBefore_def ValidationError_bits)

lemma sint_pred:
  assumes "sint (now :: int64) \<noteq> - (2 ^ 63)"
  shows "sint (now - 1) = sint now - 1"
proof -
  have lo: "- (2 ^ 63) \<le> sint now" using sint_ge [of now] by simp
  have hi: "sint now < 2 ^ 63" using sint_lt [of now] by simp
  have "sint (now - 1) = signed_take_bit 63 (sint now - 1)"
    by (simp add: sint_word_ariths)
  also have "\<dots> = sint now - 1"
    using lo hi assms by (intro signed_take_bit_int_eq_self) auto
  finally show ?thesis .
qed

section \<open>Properties of the signing method\<close>

text \<open>The constant-time comparison decides equality.\<close>

lemma fold_or_xor_zero:
  "fold (\<lambda>(a, b) v. v OR (a XOR b)) ps (v0 :: byte) = 0 \<longleftrightarrow> v0 = 0 \<and> (\<forall>(a, b) \<in> set ps. a = b)"
proof (induction ps arbitrary: v0)
  case Nil
  then show ?case by simp
next
  case (Cons p ps)
  obtain a b where p: "p = (a, b)" by (cases p)
  have "a = (a XOR b) XOR b" by (simp add: xor.assoc)
  then have "a = b" if "a XOR b = 0" using that by simp
  then have "a XOR b = 0 \<longleftrightarrow> a = b" by auto
  then show ?case
    by (auto simp: Cons.IH p or_eq_0_iff)
qed

lemma ConstantTimeCompare_eq: "ConstantTimeCompare x y = (if x = y then 1 else 0)"
proof (cases "length x = length y")
  case True
  then show ?thesis
    by (auto simp: ConstantTimeCompare_def ConstantTimeByteEq_def fold_or_xor_zero list_eq_iff_zip_eq)
next
  case False
  then show ?thesis by (auto simp: ConstantTimeCompare_def)
qed

lemma hmac_Equal_iff: "hmac_Equal mac1 mac2 \<longleftrightarrow> mac1 = mac2"
  by (simp add: hmac_Equal_def ConstantTimeCompare_eq)

text \<open>The identity checks compare the claim with the given string.\<close>

lemma unat_of_char: "unat (of_char c :: byte) = of_char c"
proof -
  have "(of_char c :: byte) = of_nat (of_char c)" by (simp add: of_char_def)
  moreover have "(of_char c :: nat) < 256" by simp
  ultimately show ?thesis by (simp add: unat_of_nat take_bit_nat_eq_self)
qed

lemma bytes_of_eq_iff: "bytes_of a = bytes_of b \<longleftrightarrow> a = b"
proof -
  have "inj (\<lambda>c. of_char c :: byte)"
  proof (rule injI)
    fix x y :: char
    assume "(of_char x :: byte) = of_char y"
    then have "(of_char x :: nat) = of_char y" by (metis unat_of_char)
    then show "x = y" by simp
  qed
  then show ?thesis by (simp add: bytes_of_def inj_map_eq_map)
qed

lemma verifyAud_eq: "verifyAud aud cmp required = (if aud = [] then \<not> required else aud = cmp)"
  by (simp add: verifyAud_def ConstantTimeCompare_eq bytes_of_eq_iff)

lemma verifyIss_eq: "verifyIss iss cmp required = (if iss = [] then \<not> required else iss = cmp)"
  by (simp add: verifyIss_def ConstantTimeCompare_eq bytes_of_eq_iff)

lemma Verify_ByteSlice:
  "SigningMethodHMAC_Verify m s sig (ByteSlice key) =
     (case DecodeSegment sig of
        (d, Some err) \<Rightarrow> Some err
      | (d, None) \<Rightarrow>
          if \<not> Available (Hash m) then Some ErrHashUnavailable
          else if d \<noteq> hmac_Sum (Hash m) key (bytes_of s) then Some ErrSignatureInvalid
          else None)"
  by (simp add: SigningMethodHMAC_Verify_def hmac_Equal_iff split: prod.splits option.splits)

lemma SigningString_eq:
  "SigningString json_Marshal t =
     (case json_Marshal (Inl (Header t)) of
        (h, Some err) \<Rightarrow> ([], Some err)
      | (h, None) \<Rightarrow>
          (case json_Marshal (Inr (Claims t)) of
             (c, Some err) \<Rightarrow> ([], Some err)
           | (c, None) \<Rightarrow> (EncodeSegment h @ ''.'' @ EncodeSegment c, None)))"
  by (simp add: SigningString_def upt_rec numeral_2_eq_2 split: prod.splits option.splits)


section \<open>The claims\<close>

subsection \<open>Temporal checks\<close>

text \<open>
  C2 (as amended): the expiration check returns \<open>\<not> required\<close> for the claim value 0 and
  otherwise passes iff the comparison instant is at most the claim; the issued-at and
  not-before checks return \<open>\<not> required\<close> for the claim value 0 and otherwise pass iff the
  comparison instant is at least the claim (\<open>int64\<close> values are compared as signed numbers).
  Consequently \<open>exp = now\<close> passes the expiration check and leaves the Expired bit of \<open>Valid()\<close>
  unset, and \<open>exp = now - 1\<close> fails it and sets the Expired bit, provided that \<open>now - 1\<close> is
  not the unset value 0 and does not wrap around, that is \<open>now \<noteq> 1\<close> and \<open>now \<noteq> -2^63\<close>.
\<close>

theorem C2_temporal_checks:
  "verifyExp exp now req = (if exp = 0 then \<not> req else sint now \<le> sint exp) \<and>
   verifyIat iat now req = (if iat = 0 then \<not> req else sint now \<ge> sint iat) \<and>
   verifyNbf nbf now req = (if nbf = 0 then \<not> req else sint now \<ge> sint nbf) \<and>
   verifyExp (Unix (TimeFunc ())) (Unix (TimeFunc ())) False \<and>
   (case StandardClaims_Valid TimeFunc (c\<lparr>ExpiresAt := Unix (TimeFunc ())\<rparr>) of
      None \<Rightarrow> True
    | Some v \<Rightarrow> Errors v AND ValidationErrorExpired = 0) \<and>
   (Unix (TimeFunc ()) \<noteq> 1 \<and> sint (Unix (TimeFunc ())) \<noteq> - (2 ^ 63) \<longrightarrow>
      \<not> verifyExp (Unix (TimeFunc ()) - 1) (Unix (TimeFunc ())) False \<and>
      (case StandardClaims_Valid TimeFunc (c\<lparr>ExpiresAt := Unix (TimeFunc ()) - 1\<rparr>) of
         None \<Rightarrow> False
       | Some v \<Rightarrow> Errors v AND ValidationErrorExpired = ValidationErrorExpired))"
proof -
  let ?now = "Unix (TimeFunc ())"
  have checks: "verifyExp exp now req = (if exp = 0 then \<not> req else sint now \<le> sint exp)"
    "verifyIat iat now req = (if iat = 0 then \<not> req else sint now \<ge> sint iat)"
    "verifyNbf nbf now req = (if nbf = 0 then \<not> req else sint now \<ge> sint nbf)"
    by (simp_all add: verifyExp_def verifyIat_def verifyNbf_def word_sle_eq)
  have pass: "verifyExp ?now ?now False"
    by (simp add: verifyExp_def)
  have bits: "(((if i then 0 else 32) OR (if n then 0 else 128)) :: uint32) AND 16 = 0" for i n
    by simp
  have passV: "case StandardClaims_Valid TimeFunc (c\<lparr>ExpiresAt := ?now\<rparr>) of
      None \<Rightarrow> True | Some v \<Rightarrow> Errors v AND ValidationErrorExpired = 0"
    using pass by (simp add: StandardClaims_Valid_eq Let_def ValidationError_bits bits)
  have fail: "\<not> verifyExp (?now - 1) ?now False"
    if "?now \<noteq> 1" "sint ?now \<noteq> - (2 ^ 63)"
    using that by (simp add: verifyExp_def word_sle_eq sint_pred)
  have bits': "((16 OR (if i then 0 else 32) OR (if n then 0 else 128)) :: uint32) AND 16 = 16" for i n
    by simp
  have failV: "case StandardClaims_Valid TimeFunc (c\<lparr>ExpiresAt := ?now - 1\<rparr>) of
         None \<Rightarrow> False | Some v \<Rightarrow> Errors v AND ValidationErrorExpired = ValidationErrorExpired"
    if "?now \<noteq> 1" "sint ?now \<noteq> - (2 ^ 63)"
    using fail [OF that] by (simp add: StandardClaims_Valid_eq Let_def ValidationError_bits bits')
  show ?thesis
    using checks pass passV fail failV by blast
qed

theorem C2_temporal_checks_witness:
  "Unix (fixedClock (UnixTime 100) ()) \<noteq> 1 \<and> sint (Unix (fixedClock (UnixTime 100) ())) \<noteq> - (2 ^ 63) \<and>
   verifyExp 100 100 False \<and> \<not> verifyExp 99 100 False \<and>
   StandardClaims_Valid (fixedClock (UnixTime 100))
     \<lparr>Audience = [], ExpiresAt = 99, Id' = [], IssuedAt = 0, Issuer = [],
      NotBefore = 0, Subject = []\<rparr> \<noteq> None"
  using C2_temporal_checks [of 0 0 False 0 0 "fixedClock (UnixTime 100)"
      "\<lparr>Audience = [], ExpiresAt = 0, Id' = [], IssuedAt = 0, Issuer = [],
      NotBefore = 0, Subject = []\<rparr>"]
  by (auto simp: fixedClock_def split: option.splits)

text \<open>
  The claim C2 as it was worded fails at \<open>now = 1\<close>: there \<open>exp = now - 1\<close> is 0, the unset
  value, so the expiration check passes and \<open>Valid()\<close> returns \<open>nil\<close>.
\<close>

theorem C2_counterexample:
  "verifyExp (1 - 1) 1 False \<and>
   StandardClaims_Valid (fixedClock (UnixTime 1))
     \<lparr>Audience = [], ExpiresAt = 1 - 1, Id' = [], IssuedAt = 0, Issuer = [],
      NotBefore = 0, Subject = []\<rparr> = None"
  by (simp add: StandardClaims_Valid_eq verifyExp_def verifyIat_def verifyNbf_def fixedClock_def)

text \<open>
  C8: a standard claim set whose \<open>ExpiresAt\<close>, \<open>IssuedAt\<close> and \<open>NotBefore\<close> are all 0 passes
  \<open>Valid()\<close> with a \<open>nil\<close> error, whatever the time source \<open>TimeFunc\<close> returns.
\<close>

theorem C8_unset_claims_valid:
  "ExpiresAt c = 0 \<Longrightarrow> IssuedAt c = 0 \<Longrightarrow> NotBefore c = 0 \<Longrightarrow> StandardClaims_Valid TimeFunc c = None"
  by (simp add: StandardClaims_Valid_eq verifyExp_def verifyIat_def verifyNbf_def)

theorem C8_unset_claims_valid_witness:
  "StandardClaims_Valid (fixedClock (UnixTime 1700000000))
     \<lparr>Audience = ''a'', ExpiresAt = 0, Id' = [], IssuedAt = 0, Issuer = ''i'',
      NotBefore = 0, Subject = []\<rparr> = None"
  by (rule C8_unset_claims_valid) simp_all

subsection \<open>The accumulated validation error\<close>

text \<open>
  C4: \<open>Valid()\<close> returns \<open>nil\<close> exactly when all three checks pass, that is when no bit is
  set. Otherwise the returned \<open>ValidationError\<close> has the bit of every failing check set
  (and of no passing one), and its \<open>Inner\<close> holds only the message of the last failing
  check in the order expiration, issued-at, not-before.
\<close>

theorem C4_valid_accumulates:
  "(let now = Unix (TimeFunc ());
        e = verifyExp (ExpiresAt c) now False;
        i = verifyIat (IssuedAt c) now False;
        n = verifyNbf (NotBefore c) now False
    in (StandardClaims_Valid TimeFunc c = None \<longleftrightarrow> e \<and> i \<and> n) \<and>
       (\<forall>v. StandardClaims_Valid TimeFunc c = Some v \<longrightarrow>
          Errors v \<noteq> 0 \<and>
          (Errors v AND ValidationErrorExpired \<noteq> 0 \<longleftrightarrow> \<not> e) \<and>
          (Errors v AND ValidationErrorIssuedAt \<noteq> 0 \<longleftrightarrow> \<not> i) \<and>
          (Errors v AND ValidationErrorNotValidYet \<noteq> 0 \<longleftrightarrow> \<not> n) \<and>
          Inner v = Some (if \<not> n then Errorf ''token is not valid yet'' []
                          else if \<not> i then Errorf ''Token used before issued'' []
                          else Errorf ''token is expired by %v''
                                 [Time_Sub (UnixTime now) (UnixTime (ExpiresAt c))])))"
  by (simp add: StandardClaims_Valid_eq Let_def ValidationError_bits)

theorem C4_valid_accumulates_witness:
  "\<exists>v. StandardClaims_Valid (fixedClock (UnixTime 10))
          \<lparr>Audience = [], ExpiresAt = 5, Id' = [], IssuedAt = 20, Issuer = [],
           NotBefore = 30, Subject = []\<rparr> = Some v \<and>
       Errors v AND ValidationErrorExpired \<noteq> 0 \<and>
       Errors v AND ValidationErrorIssuedAt \<noteq> 0 \<and>
       Errors v AND ValidationErrorNotValidYet \<noteq> 0 \<and>
       Inner v = Some (Errorf ''token is not valid yet'' [])"
  using C4_valid_accumulates [of "fixedClock (UnixTime 10)"
     "\<lparr>Audience = [], ExpiresAt = 5, Id' = [], IssuedAt = 20, Issuer = [],
      NotBefore = 30, Subject = []\<rparr>"]
  by (auto simp: Let_def fixedClock_def verifyExp_def verifyIat_def verifyNbf_def)

text \<open>
  C10: \<open>Valid()\<close> sets no bit other than Expired, IssuedAt and NotValidYet, and its result
  does not depend on \<open>Audience\<close>, \<open>Issuer\<close>, \<open>Subject\<close> or \<open>Id\<close>: when the three time
  claims are valid or unset, \<open>Valid()\<close> returns \<open>nil\<close> whatever the identity claims are.
  The audience and the issuer are compared by \<open>VerifyAudience\<close> and \<open>VerifyIssuer\<close>.
\<close>

theorem C10_valid_time_claims_only:
  "(\<forall>v. StandardClaims_Valid TimeFunc c = Some v \<longrightarrow>
       Errors v AND NOT (ValidationErrorExpired OR ValidationErrorIssuedAt OR ValidationErrorNotValidYet) = 0) \<and>
   StandardClaims_Valid TimeFunc (c\<lparr>Audience := aud, Issuer := iss, Subject := sub, Id' := jti\<rparr>)
     = StandardClaims_Valid TimeFunc c \<and>
   (verifyExp (ExpiresAt c) (Unix (TimeFunc ())) False \<and>
    verifyIat (IssuedAt c) (Unix (TimeFunc ())) False \<and>
    verifyNbf (NotBefore c) (Unix (TimeFunc ())) False \<longrightarrow>
      StandardClaims_Valid TimeFunc (c\<lparr>Audience := aud, Issuer := iss, Subject := sub, Id' := jti\<rparr>) = None) \<and>
   VerifyAudience c cmpAud req = (if Audience c = [] then \<not> req else Audience c = cmpAud) \<and>
   VerifyIssuer c cmpIss req = (if Issuer c = [] then \<not> req else Issuer c = cmpIss)"
  by (simp add: StandardClaims_Valid_eq Let_def ValidationError_bits VerifyAudience_def
      VerifyIssuer_def verifyAud_eq verifyIss_eq)

theorem C10_valid_time_claims_only_witness:
  "verifyExp 0 (Unix (fixedClock (UnixTime 10) ())) False \<and>
   verifyIat 5 (Unix (fixedClock (UnixTime 10) ())) False \<and>
   verifyNbf 0 (Unix (fixedClock (UnixTime 10) ())) False \<and>
   StandardClaims_Valid (fixedClock (UnixTime 10))
     \<lparr>Audience = ''a'', ExpiresAt = 0, Id' = ''j'', IssuedAt = 5, Issuer = ''i'',
      NotBefore = 0, Subject = ''s''\<rparr> = None"
proof -
  let ?c = "\<lparr>Audience = [], ExpiresAt = 0, Id' = [], IssuedAt = 5, Issuer = [],
      NotBefore = 0, Subject = []\<rparr>"
  have pre: "verifyExp (ExpiresAt ?c) (Unix (fixedClock (UnixTime 10) ())) False \<and>
    verifyIat (IssuedAt ?c) (Unix (fixedClock (UnixTime 10) ())) False \<and>
    verifyNbf (NotBefore ?c) (Unix (fixedClock (UnixTime 10) ())) False"
    by (simp add: fixedClock_def verifyExp_def verifyIat_def verifyNbf_def)
  have "StandardClaims_Valid (fixedClock (UnixTime 10))
          (?c\<lparr>Audience := ''a'', Issuer := ''i'', Subject := ''s'', Id' := ''j''\<rparr>) = None"
    using C10_valid_time_claims_only [where TimeFunc = "fixedClock (UnixTime 10)"
     and c = ?c and aud = "''a''" and iss = "''i''" and sub = "''s''" and jti = "''j''"
     and cmpAud = "''a''" and cmpIss = "''i''" and req = False] pre
    by blast
  then show ?thesis using pre by simp
qed

subsection \<open>The segment codec\<close>

text \<open>
  C3: the segment codec is reversible: for every byte sequence \<open>b\<close>,
  \<open>DecodeSegment(EncodeSegment(b))\<close> succeeds and returns exactly \<open>b\<close>, and
  \<open>EncodeSegment(b)\<close> contains no padding character \<open>=\<close>.
\<close>

theorem C3_segment_roundtrip:
  "DecodeSegment (EncodeSegment b) = (b, None) \<and> CHR ''='' \<notin> set (EncodeSegment b)"
  using DecodeSegment_EncodeSegment [of b] EncodeSegment_alphabet [of b] nonalpha(1)
  by auto

theorem C3_segment_roundtrip_witness:
  "DecodeSegment (EncodeSegment [0x41, 0xFF]) = ([0x41, 0xFF], None)
     \<and> CHR ''='' \<notin> set (EncodeSegment [0x41, 0xFF])"
  by (rule C3_segment_roundtrip)

text \<open>
  C6 (as amended): \<open>DecodeSegment\<close> re-pads every input with \<open>=\<close> to a multiple of 4
  characters and decodes it with \<open>base64.URLEncoding\<close>; every error it returns is a
  \<open>base64.CorruptInputError\<close>. It fails for every input that contains a character other
  than those of the URL-safe alphabet, \<open>=\<close>, line feed and carriage return, and for every
  input whose length is 1 modulo 4; it succeeds for every input that consists of characters
  of the alphabet and whose length is not 1 modulo 4. (Line feeds and carriage returns are
  skipped by the decoder and padding at the end is accepted, so an input with these
  characters can decode.)
\<close>

theorem C6_decode_segment:
  "DecodeSegment seg = DecodeString (seg @ replicate ((4 - length seg mod 4) mod 4) CHR ''='') \<and>
   length (seg @ replicate ((4 - length seg mod 4) mod 4) CHR ''='') mod 4 = 0 \<and>
   (\<forall>e. snd (DecodeSegment seg) = Some e \<longrightarrow> (\<exists>p. e = CorruptInputError p)) \<and>
   ((\<exists>c \<in> set seg. c \<notin> set encodeURL \<and> c \<noteq> CHR ''='' \<and> c \<noteq> CHR 0x0A \<and> c \<noteq> CHR 0x0D) \<longrightarrow>
      snd (DecodeSegment seg) \<noteq> None) \<and>
   (length seg mod 4 = 1 \<longrightarrow> snd (DecodeSegment seg) \<noteq> None) \<and>
   (set seg \<subseteq> set encodeURL \<and> length seg mod 4 \<noteq> 1 \<longrightarrow> snd (DecodeSegment seg) = None)"
proof -
  define k where "k = (4 - length seg mod 4) mod 4"
  have D: "DecodeSegment seg = Decode_loop 0 (seg @ replicate k padChar)"
    by (simp add: DecodeSegment_repad DecodeString_def Decode_eq k_def)
  have repad: "DecodeSegment seg = DecodeString (seg @ replicate k CHR ''='')"
    using DecodeSegment_repad [of seg] by (simp add: k_def padChar_def)
  have len: "length (seg @ replicate k CHR ''='') mod 4 = 0"
    unfolding k_def length_append length_replicate by (rule repad_len)
  have kind: "\<exists>p. e = CorruptInputError p" if "snd (DecodeSegment seg) = Some e" for e
    using that Decode_loop_error_kind unfolding D by blast
  have bad: "snd (DecodeSegment seg) \<noteq> None"
    if "\<exists>c \<in> set seg. c \<notin> set encodeURL \<and> c \<noteq> CHR ''='' \<and> c \<noteq> CHR 0x0A \<and> c \<noteq> CHR 0x0D"
  proof
    assume "snd (DecodeSegment seg) = None"
    then have "set (seg @ replicate k padChar) \<subseteq> set encodeURL \<union> {CHR 0x0A, CHR 0x0D, padChar}"
      unfolding D by (rule Decode_loop_None [THEN conjunct1])
    with that show False by (auto simp: padChar_def)
  qed
  have one: "snd (DecodeSegment seg) \<noteq> None" if "length seg mod 4 = 1"
  proof
    assume "snd (DecodeSegment seg) = None"
    then have "count_list (seg @ replicate k padChar) padChar \<le> 2"
      unfolding D by (rule Decode_loop_None [THEN conjunct2])
    moreover have "k = 3" using that by (simp add: k_def)
    moreover have "count_list (replicate n padChar) padChar = n" for n
      by (induction n) auto
    ultimately show False by (simp add: count_list_append)
  qed
  have good: "snd (DecodeSegment seg) = None" if "set seg \<subseteq> set encodeURL \<and> length seg mod 4 \<noteq> 1"
  proof -
    have "k \<le> 2" using that unfolding k_def by (intro repad_le) simp
    moreover have "(length seg + k) mod 4 = 0" unfolding k_def by (rule repad_len)
    ultimately show ?thesis
      unfolding D using that by (intro Decode_loop_alphabet) auto
  qed
  show ?thesis
    unfolding k_def [symmetric]
    using repad len kind bad one good by blast
qed

theorem C6_decode_segment_witness:
  "(\<exists>c \<in> set ''QQ!''. c \<notin> set encodeURL \<and> c \<noteq> CHR ''='' \<and> c \<noteq> CHR 0x0A \<and> c \<noteq> CHR 0x0D) \<and>
   snd (DecodeSegment ''QQ!'') \<noteq> None \<and>
   length ''QUFBQ'' mod 4 = 1 \<and> snd (DecodeSegment ''QUFBQ'') \<noteq> None \<and>
   set ''QUFBQUE'' \<subseteq> set encodeURL \<and> length ''QUFBQUE'' mod 4 \<noteq> 1 \<and>
   snd (DecodeSegment ''QUFBQUE'') = None"
proof -
  have a: "\<exists>c \<in> set ''QQ!''. c \<notin> set encodeURL \<and> c \<noteq> CHR ''='' \<and> c \<noteq> CHR 0x0A \<and> c \<noteq> CHR 0x0D"
    by (simp add: encodeURL_def)
  have b: "length ''QUFBQ'' mod 4 = 1" by simp
  have c: "set ''QUFBQUE'' \<subseteq> set encodeURL \<and> length ''QUFBQUE'' mod 4 \<noteq> 1"
    by (simp add: encodeURL_def)
  have "snd (DecodeSegment ''QQ!'') \<noteq> None"
    using C6_decode_segment [of "''QQ!''"] a by blast
  moreover have "snd (DecodeSegment ''QUFBQ'') \<noteq> None"
    using C6_decode_segment [of "''QUFBQ''"] b by blast
  moreover have "snd (DecodeSegment ''QUFBQUE'') = None"
    using C6_decode_segment [of "''QUFBQUE''"] c by blast
  ultimately show ?thesis using a b c by blast
qed

text \<open>
  The claim C6 as it was worded fails for an input with line feeds, which are not in the
  alphabet: \<open>"QQ\n\n\n\n"\<close> is re-padded to \<open>"QQ\n\n\n\n=="\<close> and decodes to the byte
  \<open>0x41\<close> without an error.
\<close>

theorem C6_counterexample:
  "CHR 0x0A \<in> set [CHR ''Q'', CHR ''Q'', CHR 0x0A, CHR 0x0A, CHR 0x0A, CHR 0x0A] \<and>
   CHR 0x0A \<notin> set encodeURL \<and>
   DecodeSegment [CHR ''Q'', CHR ''Q'', CHR 0x0A, CHR 0x0A, CHR 0x0A, CHR 0x0A] = ([65], None)"
proof -
  have "DecodeSegment [CHR ''Q'', CHR ''Q'', CHR 0x0A, CHR 0x0A, CHR 0x0A, CHR 0x0A] = ([65], None)"
    by code_simp
  then show ?thesis by (simp add: encodeURL_def)
qed

subsection \<open>HMAC signatures\<close>

text \<open>
  C1: for every signing string and every key that is a byte slice, with the hash of the
  method available, \<open>Sign\<close> succeeds and \<open>Verify\<close> of its result under the same key
  returns \<open>nil\<close>. \<open>Verify\<close> succeeds exactly when the signature text decodes to the
  recomputed MAC; when it decodes to anything else, \<open>Verify\<close> fails with
  \<open>ErrSignatureInvalid\<close>.
\<close>

theorem C1_hmac_sign_verify:
  "Available (Hash m) \<Longrightarrow>
   SigningMethodHMAC_Sign m s (ByteSlice key :: 'a interface)
     = (EncodeSegment (hmac_Sum (Hash m) key (bytes_of s)), None) \<and>
   SigningMethodHMAC_Verify m s (fst (SigningMethodHMAC_Sign m s (ByteSlice key :: 'a interface))) (ByteSlice key :: 'a interface)
     = None \<and>
   (SigningMethodHMAC_Verify m s sig (ByteSlice key :: 'a interface) = None
      \<longleftrightarrow> DecodeSegment sig = (hmac_Sum (Hash m) key (bytes_of s), None)) \<and>
   (\<forall>d. DecodeSegment sig = (d, None) \<longrightarrow>
      SigningMethodHMAC_Verify m s sig (ByteSlice key :: 'a interface)
        = (if d = hmac_Sum (Hash m) key (bytes_of s) then None else Some ErrSignatureInvalid))"
proof -
  assume av: "Available (Hash m)"
  let ?mac = "hmac_Sum (Hash m) key (bytes_of s)"
  have sign: "SigningMethodHMAC_Sign m s (ByteSlice key :: 'a interface) = (EncodeSegment ?mac, None)"
    using av by (simp add: SigningMethodHMAC_Sign_def)
  have rt: "SigningMethodHMAC_Verify m s (EncodeSegment ?mac) (ByteSlice key :: 'a interface) = None"
    using av by (simp add: Verify_ByteSlice DecodeSegment_EncodeSegment)
  have iff: "SigningMethodHMAC_Verify m s sig (ByteSlice key :: 'a interface) = None
      \<longleftrightarrow> DecodeSegment sig = (?mac, None)"
    using av by (auto simp: Verify_ByteSlice split: prod.splits option.splits)
  have dec: "SigningMethodHMAC_Verify m s sig (ByteSlice key :: 'a interface)
        = (if d = ?mac then None else Some ErrSignatureInvalid)"
    if "DecodeSegment sig = (d, None)" for d
    using av that by (simp add: Verify_ByteSlice)
  show ?thesis
  proof (intro conjI allI impI)
    show "SigningMethodHMAC_Sign m s (ByteSlice key :: 'a interface) = (EncodeSegment ?mac, None)"
      by (rule sign)
    show "SigningMethodHMAC_Verify m s (fst (SigningMethodHMAC_Sign m s (ByteSlice key :: 'a interface)))
            (ByteSlice key :: 'a interface) = None"
      unfolding sign fst_conv by (rule rt)
    show "SigningMethodHMAC_Verify m s sig (ByteSlice key :: 'a interface) = None
      \<longleftrightarrow> DecodeSegment sig = (?mac, None)"
      by (rule iff)
    show "SigningMethodHMAC_Verify m s sig (ByteSlice key :: 'a interface)
        = (if d = ?mac then None else Some ErrSignatureInvalid)"
      if "DecodeSegment sig = (d, None)" for d
      by (rule dec [OF that])
  qed
qed

text \<open>
  An instance with a stand-in hash of block size 4 whose digest is the length of its input
  as one byte; the MAC of any short message under the key \<open>[1, 2]\<close> is then the byte 5.
\<close>

theorem C1_hmac_sign_verify_witness:
  "Available (Hash \<lparr>Name = ''HS256'', Hash = \<lparr>Available = True, BlockSize = 4,
       HashSum = (\<lambda>msg. [of_nat (length msg)])\<rparr>\<rparr>) \<and>
   SigningMethodHMAC_Sign \<lparr>Name = ''HS256'', Hash = \<lparr>Available = True, BlockSize = 4,
       HashSum = (\<lambda>msg. [of_nat (length msg)])\<rparr>\<rparr> ''a.b'' (ByteSlice [1, 2] :: unit interface)
     = (''BQ'', None) \<and>
   SigningMethodHMAC_Verify \<lparr>Name = ''HS256'', Hash = \<lparr>Available = True, BlockSize = 4,
       HashSum = (\<lambda>msg. [of_nat (length msg)])\<rparr>\<rparr> ''a.b'' ''BQ'' (ByteSlice [1, 2] :: unit interface)
     = None \<and>
   DecodeSegment ''QQ'' = ([65], None) \<and>
   SigningMethodHMAC_Verify \<lparr>Name = ''HS256'', Hash = \<lparr>Available = True, BlockSize = 4,
       HashSum = (\<lambda>msg. [of_nat (length msg)])\<rparr>\<rparr> ''a.b'' ''QQ'' (ByteSlice [1, 2] :: unit interface)
     = Some ErrSignatureInvalid"
proof -
  let ?m = "\<lparr>Name = ''HS256'', Hash = \<lparr>Available = True, BlockSize = 4,
       HashSum = (\<lambda>msg. [of_nat (length msg)])\<rparr>\<rparr>"
  have av: "Available (Hash ?m)" by simp
  have mac: "hmac_Sum (Hash ?m) [1, 2] (bytes_of ''a.b'') = [5]"
    by (simp add: hmac_Sum_def hmac_pad_def bytes_of_def)
  have enc: "EncodeSegment [5] = ''BQ''" by code_simp
  have dec: "DecodeSegment ''QQ'' = ([65], None)" by code_simp
  note C1 = C1_hmac_sign_verify [where ?'a = unit, OF av, of "''a.b''" "[1, 2]", unfolded mac enc]
  have "SigningMethodHMAC_Verify ?m ''a.b'' ''QQ'' (ByteSlice [1, 2] :: unit interface)
          = Some ErrSignatureInvalid"
    using C1 [of "''QQ''"] dec by simp
  moreover have s1: "SigningMethodHMAC_Sign ?m ''a.b'' (ByteSlice [1, 2] :: unit interface) = (''BQ'', None)"
    using C1 [of "''QQ''"] by blast
  moreover have "SigningMethodHMAC_Verify ?m ''a.b''
      (fst (SigningMethodHMAC_Sign ?m ''a.b'' (ByteSlice [1, 2] :: unit interface)))
      (ByteSlice [1, 2] :: unit interface) = None"
    using C1 [of "''QQ''"] by blast
  then have "SigningMethodHMAC_Verify ?m ''a.b'' ''BQ'' (ByteSlice [1, 2] :: unit interface) = None"
    unfolding s1 by simp
  ultimately show ?thesis using av dec by blast
qed

text \<open>
  C5: for every key that is not a byte slice, \<open>Sign\<close> returns the empty string with
  \<open>ErrInvalidKeyType\<close> and \<open>Verify\<close> returns \<open>ErrInvalidKeyType\<close>, whatever the signing
  input and the signature text are.
\<close>

theorem C5_hmac_invalid_key_type:
  "(\<forall>keyBytes. key \<noteq> ByteSlice keyBytes) \<Longrightarrow>
   SigningMethodHMAC_Sign m s key = ([], Some ErrInvalidKeyType) \<and>
   SigningMethodHMAC_Verify m s sig key = Some ErrInvalidKeyType"
  by (cases key) (simp_all add: SigningMethodHMAC_Sign_def SigningMethodHMAC_Verify_def)

theorem C5_hmac_invalid_key_type_witness:
  "(\<forall>keyBytes. (String ''secret'' :: unit interface) \<noteq> ByteSlice keyBytes) \<and>
   SigningMethodHMAC_Sign \<lparr>Name = ''HS256'', Hash = \<lparr>Available = True, BlockSize = 4,
       HashSum = (\<lambda>msg. [of_nat (length msg)])\<rparr>\<rparr> ''a.b'' (String ''secret'' :: unit interface)
     = ([], Some ErrInvalidKeyType) \<and>
   SigningMethodHMAC_Verify \<lparr>Name = ''HS256'', Hash = \<lparr>Available = True, BlockSize = 4,
       HashSum = (\<lambda>msg. [of_nat (length msg)])\<rparr>\<rparr> ''a.b'' ''BQ'' (String ''secret'' :: unit interface)
     = Some ErrInvalidKeyType"
proof -
  have k: "\<forall>keyBytes. (String ''secret'' :: unit interface) \<noteq> ByteSlice keyBytes" by simp
  show ?thesis using k C5_hmac_invalid_key_type [OF k] by blast
qed

text \<open>
  C9: \<open>Verify\<close> checks the type of the key before it decodes the signature: with a key
  that is not a byte slice it returns \<open>ErrInvalidKeyType\<close> also for a signature text that
  does not decode, where a byte-slice key gives the decoder's error.
\<close>

theorem C9_key_type_before_decoding:
  "(\<forall>keyBytes. (key :: 'a interface) \<noteq> ByteSlice keyBytes) \<Longrightarrow> DecodeSegment sig = (d, Some err) \<Longrightarrow>
   SigningMethodHMAC_Verify m s sig key = Some ErrInvalidKeyType \<and>
   SigningMethodHMAC_Verify m s sig (ByteSlice keyBytes' :: 'a interface) = Some err"
  by (cases key) (simp_all add: SigningMethodHMAC_Verify_def)

theorem C9_key_type_before_decoding_witness:
  "(\<forall>keyBytes. (NilValue :: unit interface) \<noteq> ByteSlice keyBytes) \<and>
   DecodeSegment ''!'' = ([], Some (CorruptInputError 0)) \<and>
   SigningMethodHMAC_Verify \<lparr>Name = ''HS256'', Hash = \<lparr>Available = True, BlockSize = 4,
       HashSum = (\<lambda>msg. [of_nat (length msg)])\<rparr>\<rparr> ''a.b'' ''!'' (NilValue :: unit interface)
     = Some ErrInvalidKeyType \<and>
   SigningMethodHMAC_Verify \<lparr>Name = ''HS256'', Hash = \<lparr>Available = True, BlockSize = 4,
       HashSum = (\<lambda>msg. [of_nat (length msg)])\<rparr>\<rparr> ''a.b'' ''!'' (ByteSlice [1, 2] :: unit interface)
     = Some (CorruptInputError 0)"
proof -
  have k: "\<forall>keyBytes. (NilValue :: unit interface) \<noteq> ByteSlice keyBytes" by simp
  have dec: "DecodeSegment ''!'' = ([], Some (CorruptInputError 0))" by code_simp
  show ?thesis using k dec C9_key_type_before_decoding [OF k dec] by blast
qed

subsection \<open>Signed tokens\<close>

text \<open>
  C7: for a token with a method bound, when \<open>SigningString()\<close> and the method's \<open>Sign\<close>
  both succeed, \<open>SignedString(key)\<close> returns the signing string and the signature joined
  by a dot; when one of the two steps fails, it returns the empty string and that step's
  error; and it returns no other error and does not panic.
\<close>

theorem C7_signed_string:
  "Method t = Some m \<Longrightarrow>
   (\<forall>sstr sig. SigningString json_Marshal t = (sstr, None) \<and> Sign m sstr key = (sig, None) \<longrightarrow>
       SignedString json_Marshal t key = Returns (sstr @ ''.'' @ sig, None)) \<and>
   (\<forall>x err. SigningString json_Marshal t = (x, Some err) \<longrightarrow>
       SignedString json_Marshal t key = Returns ([], Some err)) \<and>
   (\<forall>sstr x err. SigningString json_Marshal t = (sstr, None) \<and> Sign m sstr key = (x, Some err) \<longrightarrow>
       SignedString json_Marshal t key = Returns ([], Some err)) \<and>
   (\<forall>r err. SignedString json_Marshal t key = Returns (r, Some err) \<longrightarrow>
       (\<exists>x. SigningString json_Marshal t = (x, Some err)) \<or>
       (\<exists>sstr x. SigningString json_Marshal t = (sstr, None) \<and> Sign m sstr key = (x, Some err))) \<and>
   SignedString json_Marshal t key \<noteq> Panics"
  by (auto simp: SignedString_def split: prod.splits option.splits)

theorem C7_signed_string_witness:
  "(let M = SigningMethodHMAC_method \<lparr>Name = ''HS256'', Hash = \<lparr>Available = True, BlockSize = 4,
              HashSum = (\<lambda>msg. [of_nat (length msg)])\<rparr>\<rparr> :: unit SigningMethod;
        t = \<lparr>Raw = [], Method = Some M,
             Header = [''typ'' \<mapsto> String ''JWT'', ''alg'' \<mapsto> String ''HS256''],
             Claims = (), Signature = [], Valid = False\<rparr>;
        ok = (\<lambda>v. ([0x7B, 0x7D], None));
        bad = (\<lambda>v. ([], Some (MarshalError ''unsupported type'')))
    in Method t = Some M \<and>
       SigningString ok t = (''e30.e30'', None) \<and>
       Sign M ''e30.e30'' (ByteSlice [1, 2]) = (''BQ'', None) \<and>
       SignedString ok t (ByteSlice [1, 2]) = Returns (''e30.e30.BQ'', None) \<and>
       Sign M ''e30.e30'' NilValue = ([], Some ErrInvalidKeyType) \<and>
       SignedString ok t NilValue = Returns ([], Some ErrInvalidKeyType) \<and>
       SigningString bad t = ([], Some (MarshalError ''unsupported type'')) \<and>
       SignedString bad t (ByteSlice [1, 2]) = Returns ([], Some (MarshalError ''unsupported type'')))"
proof -
  let ?m = "\<lparr>Name = ''HS256'', Hash = \<lparr>Available = True, BlockSize = 4,
              HashSum = (\<lambda>msg. [of_nat (length msg)])\<rparr>\<rparr>"
  let ?M = "SigningMethodHMAC_method ?m :: unit SigningMethod"
  let ?t = "\<lparr>Raw = [], Method = Some ?M,
             Header = [''typ'' \<mapsto> String ''JWT'', ''alg'' \<mapsto> String ''HS256''],
             Claims = (), Signature = [], Valid = False\<rparr>"
  let ?ok = "(\<lambda>v. ([0x7B, 0x7D], None)) :: (unit, unit) json_Marshal"
  let ?bad = "(\<lambda>v. ([], Some (MarshalError ''unsupported type''))) :: (unit, unit) json_Marshal"
  have meth: "Method ?t = Some ?M" by simp
  have enc: "EncodeSegment [0x7B, 0x7D] = ''e30''" by code_simp
  have enc5: "EncodeSegment [5] = ''BQ''" by code_simp
  have mac: "hmac_Sum (Hash ?m) [1, 2] (bytes_of ''e30.e30'') = [5]"
    by (simp add: hmac_Sum_def hmac_pad_def bytes_of_def)
  have ss: "SigningString ?ok ?t = (''e30.e30'', None)"
    by (simp add: SigningString_eq enc)
  have sb: "SigningString ?bad ?t = ([], Some (MarshalError ''unsupported type''))"
    by (simp add: SigningString_eq)
  have sg: "Sign ?M ''e30.e30'' (ByteSlice [1, 2]) = (''BQ'', None)"
    using mac by (simp add: SigningMethodHMAC_method_def SigningMethodHMAC_Sign_def enc5)
  have sn: "Sign ?M ''e30.e30'' NilValue = ([], Some ErrInvalidKeyType)"
    by (simp add: SigningMethodHMAC_method_def SigningMethodHMAC_Sign_def)
  note c7 = C7_signed_string [OF meth]
  have r1: "SignedString ?ok ?t (ByteSlice [1, 2]) = Returns (''e30.e30.BQ'', None)"
    using c7 [of ?ok "ByteSlice [1, 2]", THEN conjunct1, rule_format, OF conjI [OF ss sg]]
    by simp
  have r2: "SignedString ?ok ?t NilValue = Returns ([], Some ErrInvalidKeyType)"
    by (rule c7 [of ?ok NilValue, THEN conjunct2, THEN conjunct2, THEN conjunct1, rule_format,
          OF conjI [OF ss sn]])
  have r3: "SignedString ?bad ?t (ByteSlice [1, 2]) = Returns ([], Some (MarshalError ''unsupported type''))"
    by (rule c7 [of ?bad "ByteSlice [1, 2]", THEN conjunct2, THEN conjunct1, rule_format, OF sb])
  show ?thesis
    unfolding Let_def
    by (intro conjI) (rule meth ss sg r1 sn r2 sb r3)+
qed

end
